theory Spec2Isabelle
  imports Complex_Main
begin

section \<open>JavaScript strings\<close>

text \<open>
  A JavaScript string is modelled as the list of its code units, restricted to the
  range 0..255 (Latin-1), which is the range of \<^typ>\<open>char\<close>.  In that range the
  white space of \<^verbatim>\<open>String.prototype.trim\<close> and of the regular-expression class
  \<^verbatim>\<open>\s\<close> is TAB, LF, VT, FF, CR, SPACE and NBSP; the line terminators are LF and CR.
\<close>

definition isSpace :: "char \<Rightarrow> bool" where
  "isSpace c = (c \<in> set [CHR 0x09, CHR 0x0A, CHR 0x0B, CHR 0x0C, CHR 0x0D, CHR 0x20, CHR 0xA0])"

definition isLineTerminator :: "char \<Rightarrow> bool" where
  "isLineTerminator c = (c = CHR 0x0A \<or> c = CHR 0x0D)"

definition isDigit :: "char \<Rightarrow> bool" where
  "isDigit c = (c \<in> set ''0123456789'')"

definition isAlpha :: "char \<Rightarrow> bool" where
  "isAlpha c = (c \<in> set ''abcdefghijklmnopqrstuvwxyzABCDEFGHIJKLMNOPQRSTUVWXYZ'')"

definition isWord :: "char \<Rightarrow> bool" where
  "isWord c = (isAlpha c \<or> isDigit c \<or> c = CHR ''_'')"

text \<open>\<^verbatim>\<open>s.trim()\<close>\<close>

definition trim :: "string \<Rightarrow> string" where
  "trim s = rev (dropWhile isSpace (rev (dropWhile isSpace s)))"

text \<open>
  \<^verbatim>\<open>s.split('\n')\<close>: never empty; the empty string splits into one empty line
  (so the last case below is never taken).
\<close>

fun split_nl :: "string \<Rightarrow> string list" where
  "split_nl [] = [[]]"
| "split_nl (c # cs) =
     (if c = CHR 0x0A then [] # split_nl cs
      else (case split_nl cs of l # ls \<Rightarrow> (c # l) # ls | [] \<Rightarrow> [[c]]))"

text \<open>\<^verbatim>\<open>xs.join(sep)\<close>\<close>

fun join :: "string \<Rightarrow> string list \<Rightarrow> string" where
  "join sep [] = []"
| "join sep [x] = x"
| "join sep (x # y # ys) = x @ sep @ join sep (y # ys)"

text \<open>\<^verbatim>\<open>s.startsWith(p)\<close>, \<^verbatim>\<open>s.endsWith(p)\<close>, \<^verbatim>\<open>s.includes(p)\<close>\<close>

definition startsWith :: "string \<Rightarrow> string \<Rightarrow> bool" where
  "startsWith s p = (take (length p) s = p)"

definition endsWith :: "string \<Rightarrow> string \<Rightarrow> bool" where
  "endsWith s p = startsWith (rev s) (rev p)"

fun includes_str :: "string \<Rightarrow> string \<Rightarrow> bool" where
  "includes_str [] p = (p = [])"
| "includes_str (c # cs) p = (startsWith (c # cs) p \<or> includes_str cs p)"

text \<open>
  \<^verbatim>\<open>s.toLowerCase()\<close> on Latin-1 code units: A to Z and the accented capitals
  (0xC0 to 0xDE, the multiplication sign 0xD7 apart) move up by 32.
\<close>

definition toLowerChar :: "char \<Rightarrow> char" where
  "toLowerChar c =
     (let n = (of_char c :: nat)
      in if (65 \<le> n \<and> n \<le> 90) \<or> (192 \<le> n \<and> n \<le> 222 \<and> n \<noteq> 215)
         then char_of (n + 32) else c)"

definition toLowerCase :: "string \<Rightarrow> string" where
  "toLowerCase s = map toLowerChar s"

text \<open>
  The canonical form a regular expression with the \<^verbatim>\<open>i\<close> flag compares code units
  by (their upper case).  The micro sign, the sharp s and the y with diaeresis have no
  upper case in Latin-1 and stay themselves.
\<close>

definition canonChar :: "char \<Rightarrow> char" where
  "canonChar c =
     (let n = (of_char c :: nat)
      in if (97 \<le> n \<and> n \<le> 122) \<or> (224 \<le> n \<and> n \<le> 254 \<and> n \<noteq> 247)
         then char_of (n - 32) else c)"

text \<open>\<^verbatim>\<open>path.basename(p)\<close> (POSIX): the last segment, trailing separators dropped.\<close>

definition basename :: "string \<Rightarrow> string" where
  "basename p =
     rev (takeWhile (\<lambda>c. c \<noteq> CHR ''/'') (dropWhile (\<lambda>c. c = CHR ''/'') (rev p)))"

section \<open>Regular expressions\<close>

text \<open>
  The regular expressions of the source are written as terms of \<open>rx\<close> and run by a
  backtracking matcher with ECMAScript's priorities: the alternatives of a match are
  listed in the order the engine tries them, so the match the engine reports is the
  head of the list at the leftmost start that has one.  A greedy star tries one more
  iteration before stopping, a lazy star the other way round, and an iteration that
  consumes nothing is rejected.  \<open>Bol\<close> and \<open>Eol\<close> are \<^verbatim>\<open>^\<close> and \<^verbatim>\<open>$\<close> without the
  \<^verbatim>\<open>m\<close> flag, \<open>EolM\<close> is \<^verbatim>\<open>$\<close> with it.

  A matcher state is the input consumed so far (reversed), the input left, and the
  captures (latest first).
\<close>

datatype rx =
    Cls "char \<Rightarrow> bool"
  | Eps
  | Seq rx rx
  | Alt rx rx
  | Star rx
  | StarL rx
  | Grp nat rx
  | Bol
  | Eol
  | EolM

type_synonym mstate = "string \<times> string \<times> (nat \<times> string) list"

fun ms :: "rx \<Rightarrow> mstate \<Rightarrow> mstate list" where
  "ms (Cls P) (pre, rest, caps) =
     (case rest of [] \<Rightarrow> [] | c # cs \<Rightarrow> if P c then [(c # pre, cs, caps)] else [])"
| "ms Eps st = [st]"
| "ms (Seq r1 r2) st = concat (map (ms r2) (ms r1 st))"
| "ms (Alt r1 r2) st = ms r1 st @ ms r2 st"
| "ms (Star r) (pre, rest, caps) =
     concat (map (\<lambda>st'. if length (fst (snd st')) < length rest then ms (Star r) st' else [])
                 (ms r (pre, rest, caps)))
     @ [(pre, rest, caps)]"
| "ms (StarL r) (pre, rest, caps) =
     (pre, rest, caps) #
     concat (map (\<lambda>st'. if length (fst (snd st')) < length rest then ms (StarL r) st' else [])
                 (ms r (pre, rest, caps)))"
| "ms (Grp i r) (pre, rest, caps) =
     map (\<lambda>(pre', rest', caps').
            (pre', rest', (i, rev (take (length pre' - length pre) pre')) # caps'))
         (ms r (pre, rest, caps))"
| "ms Bol (pre, rest, caps) = (if pre = [] then [(pre, rest, caps)] else [])"
| "ms Eol (pre, rest, caps) = (if rest = [] then [(pre, rest, caps)] else [])"
| "ms EolM (pre, rest, caps) =
     (case rest of [] \<Rightarrow> [(pre, rest, caps)]
      | c # cs \<Rightarrow> if isLineTerminator c then [(pre, rest, caps)] else [])"

text \<open>\<^verbatim>\<open>r+\<close>, \<^verbatim>\<open>r+?\<close>, \<^verbatim>\<open>r?\<close>, a literal string, and a literal under the \<^verbatim>\<open>i\<close> flag.\<close>

definition Plus :: "rx \<Rightarrow> rx" where
  "Plus r = Seq r (Star r)"

definition PlusL :: "rx \<Rightarrow> rx" where
  "PlusL r = Seq r (StarL r)"

definition Opt :: "rx \<Rightarrow> rx" where
  "Opt r = Alt r Eps"

fun lit :: "string \<Rightarrow> rx" where
  "lit [] = Eps"
| "lit (c # cs) = Seq (Cls (\<lambda>x. x = c)) (lit cs)"

fun lit_i :: "string \<Rightarrow> rx" where
  "lit_i [] = Eps"
| "lit_i (c # cs) = Seq (Cls (\<lambda>x. canonChar x = canonChar c)) (lit_i cs)"

text \<open>
  The first match at or after the current position: the text skipped before it, and
  the matcher's final state.
\<close>

fun rx_search :: "rx \<Rightarrow> string \<Rightarrow> string \<Rightarrow> (string \<times> mstate) option" where
  "rx_search r pre [] =
     (case ms r (pre, [], []) of st # _ \<Rightarrow> Some ([], st) | [] \<Rightarrow> None)"
| "rx_search r pre (c # cs) =
     (case ms r (pre, c # cs, []) of
        st # _ \<Rightarrow> Some ([], st)
      | [] \<Rightarrow> (case rx_search r (c # pre) cs of
                 None \<Rightarrow> None
               | Some (gap, st) \<Rightarrow> Some (c # gap, st)))"

text \<open>\<^verbatim>\<open>re.test(s)\<close> for a regular expression without the \<^verbatim>\<open>g\<close> flag.\<close>

definition rx_test :: "rx \<Rightarrow> string \<Rightarrow> bool" where
  "rx_test r s = (rx_search r [] s \<noteq> None)"

text \<open>\<^verbatim>\<open>s.replace(re, repl)\<close> without the \<^verbatim>\<open>g\<close> flag: the first match only.\<close>

definition rx_replace_first :: "rx \<Rightarrow> string \<Rightarrow> string \<Rightarrow> string" where
  "rx_replace_first r s repl =
     (case rx_search r [] s of
        None \<Rightarrow> s
      | Some (gap, (pre', rest', caps)) \<Rightarrow> gap @ repl @ rest')"

text \<open>The capture \<open>i\<close> of a match; a group that took no part reads as the empty string.\<close>

definition cap :: "(nat \<times> string) list \<Rightarrow> nat \<Rightarrow> string" where
  "cap caps i = (case map_of caps i of Some s \<Rightarrow> s | None \<Rightarrow> [])"

text \<open>
  A match consumes a piece of the input: the matcher only moves text from the input
  left to the input consumed.  This is what makes the scan below terminate.
\<close>

lemma ms_shape_aux:
  "st' \<in> set (ms r st) \<Longrightarrow>
     \<exists>m. fst (snd st) = m @ fst (snd st') \<and> fst st' = rev m @ fst st"
proof (induction r st arbitrary: st' rule: ms.induct)
  case (1 P pre rest caps)
  then show ?case by (cases rest) (auto split: if_splits)
next
  case (2 st)
  then show ?case by simp
next
  case (3 r1 r2 st)
  from "3.prems" obtain s1 where
    a: "s1 \<in> set (ms r1 st)" and b: "st' \<in> set (ms r2 s1)"
    by auto
  from "3.IH"(1) [OF a] obtain m1 where
    m1: "fst (snd st) = m1 @ fst (snd s1)" "fst s1 = rev m1 @ fst st" by blast
  from "3.IH"(2) [OF a b] obtain m2 where
    m2: "fst (snd s1) = m2 @ fst (snd st')" "fst st' = rev m2 @ fst s1" by blast
  from m1 m2 show ?case by (intro exI [of _ "m1 @ m2"]) simp
next
  case (4 r1 r2 st)
  from "4.prems" have "st' \<in> set (ms r1 st) \<or> st' \<in> set (ms r2 st)" by simp
  then show ?case using "4.IH" by blast
next
  case (5 r pre rest caps)
  from "5.prems" consider
    (stop) "st' = (pre, rest, caps)" |
    (iter) s1 where "s1 \<in> set (ms r (pre, rest, caps))"
      "length (fst (snd s1)) < length rest" "st' \<in> set (ms (Star r) s1)"
    by (auto split: if_splits)
  then show ?case
  proof cases
    case stop
    then show ?thesis by simp
  next
    case iter
    from "5.IH"(1) [OF iter(1)] obtain m1 where
      m1: "rest = m1 @ fst (snd s1)" "fst s1 = rev m1 @ pre" by auto
    from "5.IH"(2) [OF iter(1) iter(2) iter(3)]
    obtain m2 where m2: "fst (snd s1) = m2 @ fst (snd st')" "fst st' = rev m2 @ fst s1" by auto
    from m1 m2 show ?thesis by (intro exI [of _ "m1 @ m2"]) simp
  qed
next
  case (6 r pre rest caps)
  from "6.prems" consider
    (stop) "st' = (pre, rest, caps)" |
    (iter) s1 where "s1 \<in> set (ms r (pre, rest, caps))"
      "length (fst (snd s1)) < length rest" "st' \<in> set (ms (StarL r) s1)"
    by (auto split: if_splits)
  then show ?case
  proof cases
    case stop
    then show ?thesis by simp
  next
    case iter
    from "6.IH"(1) [OF iter(1)] obtain m1 where
      m1: "rest = m1 @ fst (snd s1)" "fst s1 = rev m1 @ pre" by auto
    from "6.IH"(2) [OF iter(1) iter(2) iter(3)]
    obtain m2 where m2: "fst (snd s1) = m2 @ fst (snd st')" "fst st' = rev m2 @ fst s1" by auto
    from m1 m2 show ?thesis by (intro exI [of _ "m1 @ m2"]) simp
  qed
next
  case (7 i r pre rest caps)
  then show ?case by auto
next
  case (8 pre rest caps)
  then show ?case by (auto split: if_splits)
next
  case (9 pre rest caps)
  then show ?case by (auto split: if_splits)
next
  case (10 pre rest caps)
  then show ?case by (cases rest) (auto split: if_splits)
qed

lemma ms_shape:
  "(pre', rest', caps') \<in> set (ms r (pre, rest, caps)) \<Longrightarrow>
     \<exists>m. rest = m @ rest' \<and> pre' = rev m @ pre"
  using ms_shape_aux [of "(pre', rest', caps')" r "(pre, rest, caps)"] by simp

lemma rx_search_shape:
  "rx_search r pre rest = Some (gap, (pre', rest', caps')) \<Longrightarrow>
     \<exists>m. rest = gap @ m @ rest' \<and> pre' = rev m @ rev gap @ pre"
proof (induction r pre rest arbitrary: gap rule: rx_search.induct)
  case (1 r pre)
  then obtain sts where "ms r (pre, [], []) = (pre', rest', caps') # sts" "gap = []"
    by (auto split: list.splits)
  then have "(pre', rest', caps') \<in> set (ms r (pre, [], []))" by simp
  from ms_shape [OF this] \<open>gap = []\<close> show ?case by simp
next
  case (2 r pre c cs)
  show ?case
  proof (cases "ms r (pre, c # cs, [])")
    case Nil
    with "2.prems" obtain gap' where g: "rx_search r (c # pre) cs = Some (gap', (pre', rest', caps'))"
      and gap: "gap = c # gap'"
      by (auto split: option.splits)
    from "2.IH" [OF Nil g] gap show ?thesis by auto
  next
    case (Cons st sts)
    with "2.prems" have "st = (pre', rest', caps')" "gap = []" by auto
    with Cons have "(pre', rest', caps') \<in> set (ms r (pre, c # cs, []))" by simp
    from ms_shape [OF this] \<open>gap = []\<close> show ?thesis by simp
  qed
qed

text \<open>
  The scan behind every use of a regular expression with the \<^verbatim>\<open>g\<close> flag
  (\<^verbatim>\<open>match\<close>, \<^verbatim>\<open>matchAll\<close>, \<^verbatim>\<open>replace\<close> and the \<^verbatim>\<open>exec\<close> loops): the input cut
  into the text between matches and the matches with their captures.  The next search
  starts where the match ended, one code unit further on after an empty match.
\<close>

datatype tok = Plain string | Matched string "(nat \<times> string) list"

function rx_scan :: "rx \<Rightarrow> string \<Rightarrow> string \<Rightarrow> tok list" where
  "rx_scan r pre rest =
     (case rx_search r pre rest of
        None \<Rightarrow> [Plain rest]
      | Some (gap, (pre', rest', caps)) \<Rightarrow>
          (let m = rev (take (length pre' - (length pre + length gap)) pre')
           in Plain gap # Matched m caps #
              (if m \<noteq> [] then rx_scan r pre' rest'
               else (case rest' of
                       [] \<Rightarrow> []
                     | c # cs \<Rightarrow> Plain [c] # rx_scan r (c # pre') cs))))"
  by pat_completeness auto
termination
proof (relation "measure (\<lambda>(r, pre, rest). length rest)", goal_cases)
  case 1
  then show ?case by simp
next
  case (2 r pre rest x2 gap st pre' bb rest' caps m)
  from rx_search_shape [of r pre rest gap pre' rest' caps] 2
  obtain mm where mm: "rest = gap @ mm @ rest'" "pre' = rev mm @ rev gap @ pre" by auto
  with 2 have "mm \<noteq> []" by auto
  with mm show ?case by simp
next
  case (3 r pre rest x2 gap st pre' bb rest' caps m c cs)
  from rx_search_shape [of r pre rest gap pre' rest' caps] 3
  obtain mm where mm: "rest = gap @ mm @ rest'" "pre' = rev mm @ rev gap @ pre" by auto
  with 3 show ?case by simp
qed

declare rx_scan.simps [simp del]

text \<open>All matches, each with its captures.\<close>

definition rx_match_all :: "rx \<Rightarrow> string \<Rightarrow> (string \<times> (nat \<times> string) list) list" where
  "rx_match_all r s =
     concat (map (\<lambda>t. case t of Plain p \<Rightarrow> [] | Matched m caps \<Rightarrow> [(m, caps)])
                 (rx_scan r [] s))"

text \<open>\<^verbatim>\<open>s.replace(re, repl)\<close> with the \<^verbatim>\<open>g\<close> flag, for a replacement without \<^verbatim>\<open>$\<close>.\<close>

definition rx_replace_all :: "rx \<Rightarrow> string \<Rightarrow> string \<Rightarrow> string" where
  "rx_replace_all r s repl =
     concat (map (\<lambda>t. case t of Plain p \<Rightarrow> p | Matched m caps \<Rightarrow> repl)
                 (rx_scan r [] s))"

section \<open>The data model\<close>

text \<open>
  A JavaScript number, as far as line and column numbers need it: an integer or NaN
  (what \<^verbatim>\<open>parseInt\<close> returns on a string with no leading digits).  Integers are exact
  here; the rounding of integers beyond \<open>2^53\<close> is not modelled.  Every comparison with
  NaN is false and arithmetic on NaN gives NaN.
\<close>

datatype jsnum = Num int | NaN

fun jsub :: "jsnum \<Rightarrow> int \<Rightarrow> jsnum" where
  "jsub (Num n) k = Num (n - k)"
| "jsub NaN k = NaN"

text \<open>Template-literal interpolation of a number: decimal digits, a sign, or NaN.\<close>

definition digitChar :: "nat \<Rightarrow> char" where
  "digitChar d = char_of (48 + d)"

fun showNat :: "nat \<Rightarrow> string" where
  "showNat n = (if n < 10 then [digitChar n] else showNat (n div 10) @ [digitChar (n mod 10)])"

fun showNum :: "jsnum \<Rightarrow> string" where
  "showNum NaN = ''NaN''"
| "showNum (Num n) = (if n < 0 then CHR ''-'' # showNat (nat (- n)) else showNat (nat n))"

text \<open>
  \<^verbatim>\<open>parseInt(s)\<close> with no radix: leading white space and a sign are skipped, a
  \<^verbatim>\<open>0x\<close> prefix selects base 16, the longest run of digits is read, and there is no
  number when that run is empty.
\<close>

definition isHexDigit :: "char \<Rightarrow> bool" where
  "isHexDigit c = (c \<in> set ''0123456789abcdefABCDEF'')"

definition digitVal :: "char \<Rightarrow> nat" where
  "digitVal c =
     (let n = (of_char c :: nat)
      in if 48 \<le> n \<and> n \<le> 57 then n - 48
         else if 97 \<le> n \<and> n \<le> 102 then n - 87
         else n - 55)"

definition readDigits :: "nat \<Rightarrow> string \<Rightarrow> nat" where
  "readDigits base ds = foldl (\<lambda>n c. base * n + digitVal c) 0 ds"

definition parseInt :: "string \<Rightarrow> jsnum" where
  "parseInt s =
     (let t = dropWhile isSpace s;
          neg = startsWith t ''-'' \<and> t \<noteq> [];
          u = (if t \<noteq> [] \<and> (hd t = CHR ''-'' \<or> hd t = CHR ''+'') then tl t else t)
      in if length u \<ge> 2 \<and> (startsWith u ''0x'' \<or> startsWith u ''0X'')
         then (case takeWhile isHexDigit (drop 2 u) of
                 [] \<Rightarrow> NaN
               | d # ds \<Rightarrow> Num ((if neg then - 1 else 1) * int (readDigits 16 (d # ds))))
         else (case takeWhile isDigit u of
                 [] \<Rightarrow> NaN
               | d # ds \<Rightarrow> Num ((if neg then - 1 else 1) * int (readDigits 10 (d # ds)))))"

text \<open>\<^verbatim>\<open>xs.slice(start, end)\<close>: a negative bound counts from the end.\<close>

definition js_slice :: "'a list \<Rightarrow> int \<Rightarrow> int \<Rightarrow> 'a list" where
  "js_slice xs start end' =
     (let len = int (length xs);
          from = (if start < 0 then max (len + start) 0 else min start len);
          to = (if end' < 0 then max (len + end') 0 else min end' len)
      in take (nat (to - from)) (drop (nat from) xs))"

text \<open>
  An Issue is the object literal pushed by the diagnostic passes.  \<open>type\<close> and
  \<open>severity\<close> are strings, as in the source; \<open>code\<close> is absent from the generic
  compiler fallback.
\<close>

record Issue =
  "file" :: string
  line :: jsnum
  column :: jsnum
  message :: string
  type :: string
  code :: "string option"
  severity :: string

record Fix =
  error :: Issue
  suggestion :: string
  confidence :: real

record AppliedFix =
  af_file :: string
  af_line :: jsnum
  af_old :: string
  af_new :: string

text \<open>
  The file system: a path names at most one regular file, with its text content.
  \<^verbatim>\<open>fs.existsSync(p)\<close> is \<open>fs p \<noteq> None\<close>, \<^verbatim>\<open>fs.readFileSync(p, 'utf8')\<close> is the
  content, \<^verbatim>\<open>fs.writeFileSync(p, s)\<close> is \<open>fs(p \<mapsto> s)\<close>.
\<close>

type_synonym filesys = "string \<rightharpoonup> string"

text \<open>
  The instance: \<^verbatim>\<open>this.options\<close> as the constructor leaves it, and the three
  accumulators.  A model name that is null, undefined or empty is the empty string
  here (all are falsy); \<open>verbose\<close> only switches console warnings, which are not
  modelled.
\<close>

record Options =
  useCompiler :: bool
  useStaticAnalysis :: bool
  useAI :: bool
  aiModel :: string
  fallbackModel :: string
  compiler :: string
  verbose :: bool
  autoFix :: bool

record TracebackSystem =
  options :: Options
  errors :: "Issue list"
  warnings :: "Issue list"
  "fixes" :: "Fix list"

record Summary =
  totalErrors :: nat
  totalWarnings :: nat
  totalFixes :: nat
  errorTypes :: "(string \<times> nat) list"
  warningTypes :: "(string \<times> nat) list"

record AnalysisResult =
  r_errors :: "Issue list"
  r_warnings :: "Issue list"
  r_fixes :: "Fix list"
  r_summary :: Summary

text \<open>
  What the program gets from outside.  A JSON value is what the inference service
  answers (an object is the list of its properties, each key once);
  \<open>js_error\<close> is a thrown error object with the three fields the source
  reads: \<^verbatim>\<open>err.response.data.error\<close> (undefined when there is no response),
  \<^verbatim>\<open>err.message\<close> and \<^verbatim>\<open>err.code\<close> (empty when absent).
\<close>

datatype jsval =
    JUndefined
  | JNull
  | JBool bool
  | JNumber int
  | JString string
  | JArray "jsval list"
  | JObject "(string \<times> jsval) list"

record js_error =
  err_response_error :: jsval
  err_message :: string
  err_code :: string

record spawn_result =
  status :: "int option"
  stdout :: string
  stderr :: string

text \<open>One \<^verbatim>\<open>axios.post\<close>: the URL, the model and the prompt of the request body.\<close>

type_synonym request = "string \<times> string \<times> string"

text \<open>
  The host: the platform's \<^verbatim>\<open>path.join\<close> and \<^verbatim>\<open>path.dirname\<close>,
  \<^verbatim>\<open>fs.readdirSync\<close> (\<open>None\<close> when it throws), the paths that are directories,
  \<^verbatim>\<open>spawnSync\<close> (the external tool's result and what it did to the files), the
  \<^verbatim>\<open>axios\<close> module (\<open>None\<close> when it could not be loaded; its answer may depend on
  the requests made before), and \<^verbatim>\<open>JSON.stringify\<close>.  All are parameters: every
  theorem holds for any host.

  A directory exists (\<^verbatim>\<open>fs.existsSync\<close> is true of it) but \<^verbatim>\<open>fs.readFileSync\<close> throws
  on it, and \<^verbatim>\<open>fs.writeFileSync\<close> throws when the directory of the file to write is
  missing.  These are the failures of the file system that are modelled; a regular file
  can always be read and replaced.  The file set of the diagnostic passes is taken to
  hold regular files and missing paths only.
\<close>

record host =
  pjoin :: "string \<Rightarrow> string \<Rightarrow> string"
  pdirname :: "string \<Rightarrow> string"
  readdirSync :: "filesys \<Rightarrow> string \<Rightarrow> string list option"
  isDirectory :: "string \<Rightarrow> bool"
  spawnSync :: "string \<Rightarrow> string list \<Rightarrow> filesys \<Rightarrow> spawn_result \<times> filesys"
  axios :: "(request list \<Rightarrow> request \<Rightarrow> js_error + jsval) option"
  json_stringify :: "jsval \<Rightarrow> string"

section \<open>sanitizeFixSuggestion\<close>

text \<open>The regular expressions of the sanitizer, in the order of the source.\<close>

definition fenceRegex :: rx where
  \<comment> \<open>\<^verbatim>\<open>/```[\s\S]*?```/g\<close>\<close>
  "fenceRegex =
     Seq (lit ''```'') (Seq (StarL (Cls (\<lambda>c. isSpace c \<or> \<not> isSpace c))) (lit ''```''))"

definition fenceOpenRegex :: rx where
  \<comment> \<open>\<^verbatim>\<open>/```[a-zA-Z0-9_]*/g\<close>\<close>
  "fenceOpenRegex = Seq (lit ''```'') (Star (Cls isWord))"

definition fenceMarkRegex :: rx where
  \<comment> \<open>\<^verbatim>\<open>/```/g\<close>\<close>
  "fenceMarkRegex = lit ''```''"

definition lineFenceRegex :: rx where
  \<comment> \<open>\<^verbatim>\<open>/^```/\<close>\<close>
  "lineFenceRegex = Seq Bol (lit ''```'')"

definition noteRegex :: rx where
  \<comment> \<open>\<^verbatim>\<open>/^Note[: ]/i\<close>\<close>
  "noteRegex = Seq Bol (Seq (lit_i ''Note'') (Cls (\<lambda>c. c = CHR '':'' \<or> c = CHR '' '')))"

definition commentNoteRegex :: rx where
  \<comment> \<open>\<^verbatim>\<open>/^\/\/\s*Note[: ]/i\<close>\<close>
  "commentNoteRegex =
     Seq Bol (Seq (lit_i ''//'') (Seq (Star (Cls isSpace))
       (Seq (lit_i ''Note'') (Cls (\<lambda>c. c = CHR '':'' \<or> c = CHR '' '')))))"

definition numPrefixRegex :: rx where
  \<comment> \<open>\<^verbatim>\<open>/^\d+\s*:?/\<close>\<close>
  "numPrefixRegex =
     Seq Bol (Seq (Plus (Cls isDigit)) (Seq (Star (Cls isSpace)) (Opt (lit '':''))))"

text \<open>
  The body of the loop over the lines: \<open>None\<close> where the source says
  \<^verbatim>\<open>continue\<close>, otherwise the line that is pushed.
\<close>

definition sanitizeLine :: "string \<Rightarrow> string option" where
  "sanitizeLine l =
     (let trimmed = trim l
      in if trimmed = [] then None
         else if startsWith trimmed ''>>>'' then None
         else if rx_test lineFenceRegex trimmed then None
         else if rx_test noteRegex trimmed then None
         else if rx_test commentNoteRegex trimmed then None
         else if rx_test numPrefixRegex trimmed \<and> \<not> startsWith trimmed ''#''
         then (let after = trim (rx_replace_first numPrefixRegex trimmed [])
               in if after = [] then None else Some after)
         else Some l)"

text \<open>What is left of one fenced block: both replacements, then \<^verbatim>\<open>trim\<close>.\<close>

definition fenceBody :: "string \<Rightarrow> string" where
  "fenceBody block =
     trim (rx_replace_all fenceMarkRegex (rx_replace_all fenceOpenRegex block []) [])"

definition sanitizeFixSuggestion :: "string \<Rightarrow> string" where
  "sanitizeFixSuggestion raw =
     (if raw = [] then []
      else
        (let text0 = trim raw;
             fences = map fst (rx_match_all fenceRegex text0);
             text = (if fences \<noteq> []
                     then trim (join [CHR 0x0A] (map fenceBody fences))
                     else text0);
             outLines = List.map_filter sanitizeLine (split_nl text)
         in trim (join [CHR 0x0A] outLines)))"

section \<open>The diagnostic passes\<close>

subsection \<open>checkSyntax\<close>

text \<open>
  The five \<^verbatim>\<open>syntaxChecks\<close>: pattern, message, type.  The patterns are
  \<^verbatim>\<open>/[^;{}]\s*$/m\<close>, \<^verbatim>\<open>/#include\s*<[^>]+$/m\<close>, \<^verbatim>\<open>/\([^)]*$/m\<close>,
  \<^verbatim>\<open>/\[[^\]]*$/m\<close> and \<^verbatim>\<open>/"[^"]*$/m\<close> (the double quote is \<open>CHR 0x22\<close>).
\<close>

definition syntaxChecks :: "(rx \<times> string \<times> string) list" where
  "syntaxChecks =
     [ (Seq (Cls (\<lambda>c. c \<notin> set '';{}'')) (Seq (Star (Cls isSpace)) EolM),
        ''Missing semicolon or closing brace'', ''syntax''),
       (Seq (lit ''#include'') (Seq (Star (Cls isSpace)) (Seq (lit ''<'')
          (Seq (Plus (Cls (\<lambda>c. c \<noteq> CHR ''>''))) EolM))),
        ''Incomplete #include directive'', ''syntax''),
       (Seq (lit ''('') (Seq (Star (Cls (\<lambda>c. c \<noteq> CHR '')''))) EolM),
        ''Unclosed parenthesis'', ''syntax''),
       (Seq (lit ''['') (Seq (Star (Cls (\<lambda>c. c \<noteq> CHR '']''))) EolM),
        ''Unclosed bracket'', ''syntax''),
       (Seq (lit [CHR 0x22]) (Seq (Star (Cls (\<lambda>c. c \<noteq> CHR 0x22))) EolM),
        ''Unclosed string literal'', ''syntax'') ]"

text \<open>
  The body of \<^verbatim>\<open>lines.forEach\<close>: the Issues of one line, one per check that
  matches, in the order of the checks.  \<open>name\<close> is \<^verbatim>\<open>path.basename(file)\<close>.
\<close>

definition checkSyntaxLine :: "string \<Rightarrow> nat \<times> string \<Rightarrow> Issue list" where
  "checkSyntaxLine name il =
     (let idx = fst il; l = snd il
      in map (\<lambda>(pattern, msg, ty).
                \<lparr>file = name, line = Num (int idx + 1), column = Num (int (length l)),
                 message = msg, type = ty, code = Some (trim l), severity = ''error''\<rparr>)
             (filter (\<lambda>(pattern, msg, ty).
                        rx_test pattern l \<and> \<not> endsWith (trim l) [CHR 0x5C])
                     syntaxChecks))"

definition checkSyntaxFile :: "filesys \<Rightarrow> string \<Rightarrow> Issue list" where
  "checkSyntaxFile fs path =
     (case fs path of
        None \<Rightarrow> []
      | Some content \<Rightarrow>
          concat (map (checkSyntaxLine (basename path)) (enumerate 0 (split_nl content))))"

definition checkSyntax :: "filesys \<Rightarrow> string list \<Rightarrow> TracebackSystem \<Rightarrow> TracebackSystem" where
  "checkSyntax fs files this =
     this\<lparr>errors := errors this @ concat (map (checkSyntaxFile fs) files)\<rparr>"

subsection \<open>checkCodeQuality\<close>

definition declarationRegex :: rx where
  \<comment> \<open>\<^verbatim>\<open>/\w+\s+\w+;/\<close>\<close>
  "declarationRegex =
     Seq (Plus (Cls isWord)) (Seq (Plus (Cls isSpace)) (Seq (Plus (Cls isWord)) (lit '';'')))"

definition checkQualityLine :: "string \<Rightarrow> nat \<times> string \<Rightarrow> Issue list" where
  "checkQualityLine name il =
     (let idx = fst il; l = snd il
      in (if includes_str l ''volatile'' \<and> includes_str l ''*'' \<and> \<not> includes_str l ''(''
          then [\<lparr>file = name, line = Num (int idx + 1), column = Num 0,
                  message = ''Potential undefined behavior with volatile pointer'',
                  type = ''quality'', code = Some (trim l), severity = ''warning''\<rparr>]
          else [])
         @
         (if rx_test declarationRegex l \<and> \<not> includes_str l ''='' \<and>
             \<not> includes_str l ''extern'' \<and> \<not> includes_str l ''static''
          then [\<lparr>file = name, line = Num (int idx + 1), column = Num 0,
                  message = ''Potentially uninitialized variable'',
                  type = ''quality'', code = Some (trim l), severity = ''warning''\<rparr>]
          else []))"

definition checkQualityFile :: "filesys \<Rightarrow> string \<Rightarrow> Issue list" where
  "checkQualityFile fs path =
     (case fs path of
        None \<Rightarrow> []
      | Some content \<Rightarrow>
          concat (map (checkQualityLine (basename path)) (enumerate 0 (split_nl content))))"

definition checkCodeQuality ::
  "filesys \<Rightarrow> string list \<Rightarrow> TracebackSystem \<Rightarrow> TracebackSystem" where
  "checkCodeQuality fs files this =
     this\<lparr>warnings := warnings this @ concat (map (checkQualityFile fs) files)\<rparr>"

subsection \<open>Helpers over the files\<close>

text \<open>\<^verbatim>\<open>getLineContent\<close>: \<^verbatim>\<open>lines[lineNum - 1] || ''\<close>, empty when the file is missing.\<close>

definition getLineContent :: "filesys \<Rightarrow> string \<Rightarrow> jsnum \<Rightarrow> string" where
  "getLineContent fs filePath lineNum =
     (case fs filePath of
        None \<Rightarrow> []
      | Some content \<Rightarrow>
          (let lines = split_nl content
           in case jsub lineNum 1 of
                NaN \<Rightarrow> []
              | Num i \<Rightarrow> if 0 \<le> i \<and> i < int (length lines) then lines ! nat i else []))"

text \<open>\<^verbatim>\<open>fullPath || file\<close>: the found path unless there is none or it is empty.\<close>

definition orElse :: "string option \<Rightarrow> string \<Rightarrow> string" where
  "orElse found other = (case found of None \<Rightarrow> other | Some p \<Rightarrow> if p = [] then other else p)"

text \<open>The regular expression shared by \<^verbatim>\<open>extractIncludes\<close> (with its group) and
  \<^verbatim>\<open>combineCode\<close> (without).\<close>

definition includeRegex :: rx where
  \<comment> \<open>\<^verbatim>\<open>/#include\s*[<"]([^>"]+)[>"]/g\<close>\<close>
  "includeRegex =
     Seq (lit ''#include'') (Seq (Star (Cls isSpace))
       (Seq (Cls (\<lambda>c. c = CHR ''<'' \<or> c = CHR 0x22))
         (Seq (Grp 1 (Plus (Cls (\<lambda>c. c \<noteq> CHR ''>'' \<and> c \<noteq> CHR 0x22))))
              (Cls (\<lambda>c. c = CHR ''>'' \<or> c = CHR 0x22)))))"

definition includeStripRegex :: rx where
  \<comment> \<open>\<^verbatim>\<open>/#include\s*[<"][^>"]+[>"]/g\<close>\<close>
  "includeStripRegex =
     Seq (lit ''#include'') (Seq (Star (Cls isSpace))
       (Seq (Cls (\<lambda>c. c = CHR ''<'' \<or> c = CHR 0x22))
         (Seq (Plus (Cls (\<lambda>c. c \<noteq> CHR ''>'' \<and> c \<noteq> CHR 0x22)))
              (Cls (\<lambda>c. c = CHR ''>'' \<or> c = CHR 0x22)))))"

text \<open>\<^verbatim>\<open>Set.prototype.add\<close> on a Set kept as the list of its elements in insertion order.\<close>

definition set_add :: "'a list \<Rightarrow> 'a \<Rightarrow> 'a list" where
  "set_add xs x = (if x \<in> set xs then xs else xs @ [x])"

text \<open>The template literal \<^verbatim>\<open>`#include <${match[1]}>`\<close>.\<close>

definition includeLine :: "string \<Rightarrow> string" where
  "includeLine name = ''#include <'' @ name @ ''>''"

definition extractIncludes :: "filesys \<Rightarrow> string list \<Rightarrow> string list" where
  "extractIncludes fs files =
     foldl (\<lambda>incs path.
              case fs path of
                None \<Rightarrow> incs
              | Some content \<Rightarrow>
                  foldl (\<lambda>incs' m. set_add incs' (includeLine (cap (snd m) 1)))
                        incs (rx_match_all includeRegex content))
           [] files"

definition combineCode :: "filesys \<Rightarrow> string list \<Rightarrow> string" where
  "combineCode fs files =
     join [CHR 0x0A, CHR 0x0A]
       (map (\<lambda>path. case fs path of
                       None \<Rightarrow> []
                     | Some content \<Rightarrow> rx_replace_all includeStripRegex content [])
            (filter (\<lambda>path. fs path \<noteq> None) files))"

subsection \<open>The parsers of the tools' output\<close>

text \<open>\<^verbatim>\<open>.\<close> in a regular expression: any code unit but a line terminator.\<close>

definition isDot :: "char \<Rightarrow> bool" where
  "isDot c = (\<not> isLineTerminator c)"

definition compilerErrorRegex :: rx where
  \<comment> \<open>\<^verbatim>\<open>/([^:]+):(\d+):(\d+):\s*(error|warning):\s*(.+)/g\<close>\<close>
  "compilerErrorRegex =
     Seq (Grp 1 (Plus (Cls (\<lambda>c. c \<noteq> CHR '':'')))) (Seq (lit '':'')
       (Seq (Grp 2 (Plus (Cls isDigit))) (Seq (lit '':'')
         (Seq (Grp 3 (Plus (Cls isDigit))) (Seq (lit '':'')
           (Seq (Star (Cls isSpace))
             (Seq (Grp 4 (Alt (lit ''error'') (lit ''warning''))) (Seq (lit '':'')
               (Seq (Star (Cls isSpace)) (Grp 5 (Plus (Cls isDot))))))))))))"

definition genericErrorRegex :: rx where
  \<comment> \<open>\<^verbatim>\<open>/error:\s*/\<close>\<close>
  "genericErrorRegex = Seq (lit ''error:'') (Star (Cls isSpace))"

definition cppcheckRegex :: rx where
  \<comment> \<open>\<^verbatim>\<open>/\[([^:]+):(\d+)\]:\s*\((\w+)\)\s*(.+)/g\<close>\<close>
  "cppcheckRegex =
     Seq (lit ''['') (Seq (Grp 1 (Plus (Cls (\<lambda>c. c \<noteq> CHR '':'')))) (Seq (lit '':'')
       (Seq (Grp 2 (Plus (Cls isDigit))) (Seq (lit '']:'')
         (Seq (Star (Cls isSpace)) (Seq (lit ''('')
           (Seq (Grp 3 (Plus (Cls isWord))) (Seq (lit '')'')
             (Seq (Star (Cls isSpace)) (Grp 4 (Plus (Cls isDot))))))))))))"

definition clangTidyRegex :: rx where
  \<comment> \<open>\<^verbatim>\<open>/([^:]+):(\d+):(\d+):\s*(warning|error):\s*(.+?)\s*\[(.+?)\]/g\<close>\<close>
  "clangTidyRegex =
     Seq (Grp 1 (Plus (Cls (\<lambda>c. c \<noteq> CHR '':'')))) (Seq (lit '':'')
       (Seq (Grp 2 (Plus (Cls isDigit))) (Seq (lit '':'')
         (Seq (Grp 3 (Plus (Cls isDigit))) (Seq (lit '':'')
           (Seq (Star (Cls isSpace))
             (Seq (Grp 4 (Alt (lit ''warning'') (lit ''error''))) (Seq (lit '':'')
               (Seq (Star (Cls isSpace)) (Seq (Grp 5 (PlusL (Cls isDot)))
                 (Seq (Star (Cls isSpace)) (Seq (lit ''['')
                   (Seq (Grp 6 (PlusL (Cls isDot))) (lit '']''))))))))))))))"

text \<open>\<^verbatim>\<open>this.errors.push(x)\<close> or \<^verbatim>\<open>this.warnings.push(x)\<close>, as the source chooses.\<close>

definition pushIssue :: "bool \<Rightarrow> Issue \<Rightarrow> TracebackSystem \<Rightarrow> TracebackSystem" where
  "pushIssue toErrors x this =
     (if toErrors then this\<lparr>errors := errors this @ [x]\<rparr>
      else this\<lparr>warnings := warnings this @ [x]\<rparr>)"

text \<open>The body of the \<^verbatim>\<open>exec\<close> loop of \<^verbatim>\<open>parseCompilerErrors\<close>.\<close>

definition compilerMatch ::
  "filesys \<Rightarrow> string list \<Rightarrow> TracebackSystem \<Rightarrow> string \<times> (nat \<times> string) list \<Rightarrow> TracebackSystem"
  where
  "compilerMatch fs files this m =
     (let caps = snd m;
          fl = cap caps 1; lineStr = cap caps 2; col = cap caps 3;
          ty = cap caps 4; msg = cap caps 5;
          fileName = basename fl;
          fullPath = find (\<lambda>f. includes_str f fileName \<or> includes_str fileName (basename f)) files;
          err = \<lparr>file = fileName, line = parseInt lineStr, column = parseInt col,
                 message = trim msg, type = ''compilation'',
                 code = Some (getLineContent fs (orElse fullPath fl) (parseInt lineStr)),
                 severity = (if ty = ''error'' then ''error'' else ''warning'')\<rparr>
      in pushIssue (ty = ''error'') err this)"

definition genericCompilerError :: "string \<Rightarrow> Issue" where
  "genericCompilerError l =
     \<lparr>file = ''unknown'', line = Num 0, column = Num 0,
      message = trim (rx_replace_first genericErrorRegex l []),
      type = ''compilation'', code = None, severity = ''error''\<rparr>"

definition parseCompilerErrors ::
  "filesys \<Rightarrow> string \<Rightarrow> string list \<Rightarrow> TracebackSystem \<Rightarrow> TracebackSystem" where
  "parseCompilerErrors fs output files this =
     (let this1 = foldl (compilerMatch fs files) this (rx_match_all compilerErrorRegex output)
      in if errors this1 = [] \<and> includes_str output ''error:''
         then this1\<lparr>errors := errors this1 @
                map genericCompilerError
                    (filter (\<lambda>l. includes_str l ''error:'') (split_nl output))\<rparr>
         else this1)"

text \<open>The body of the \<^verbatim>\<open>exec\<close> loop of \<^verbatim>\<open>parseCppcheckOutput\<close>.\<close>

definition cppcheckMatch ::
  "filesys \<Rightarrow> string list \<Rightarrow> TracebackSystem \<Rightarrow> string \<times> (nat \<times> string) list \<Rightarrow> TracebackSystem"
  where
  "cppcheckMatch fs files this m =
     (let caps = snd m;
          fl = cap caps 1; lineStr = cap caps 2; sev = cap caps 3; msg = cap caps 4;
          fileName = basename fl;
          fullPath = find (\<lambda>f. includes_str f fileName) files;
          issue = \<lparr>file = fileName, line = parseInt lineStr, column = Num 0,
                   message = trim msg, type = ''static_analysis'',
                   code = Some (getLineContent fs (orElse fullPath fl) (parseInt lineStr)),
                   severity = (if sev = ''error'' then ''error'' else ''warning'')\<rparr>
      in pushIssue (sev = ''error'') issue this)"

definition parseCppcheckOutput ::
  "filesys \<Rightarrow> string \<Rightarrow> string list \<Rightarrow> TracebackSystem \<Rightarrow> TracebackSystem" where
  "parseCppcheckOutput fs output files this =
     foldl (cppcheckMatch fs files) this (rx_match_all cppcheckRegex output)"

text \<open>The body of the \<^verbatim>\<open>exec\<close> loop of \<^verbatim>\<open>parseClangTidyOutput\<close>.\<close>

definition clangTidyMatch ::
  "filesys \<Rightarrow> string list \<Rightarrow> TracebackSystem \<Rightarrow> string \<times> (nat \<times> string) list \<Rightarrow> TracebackSystem"
  where
  "clangTidyMatch fs files this m =
     (let caps = snd m;
          fl = cap caps 1; lineStr = cap caps 2; col = cap caps 3;
          sev = cap caps 4; msg = cap caps 5; chk = cap caps 6;
          fileName = basename fl;
          fullPath = find (\<lambda>f. includes_str f fileName) files;
          issue = \<lparr>file = fileName, line = parseInt lineStr, column = parseInt col,
                   message = trim msg @ '' ['' @ chk @ '']'', type = ''static_analysis'',
                   code = Some (getLineContent fs (orElse fullPath fl) (parseInt lineStr)),
                   severity = (if sev = ''error'' then ''error'' else ''warning'')\<rparr>
      in pushIssue (sev = ''error'') issue this)"

definition parseClangTidyOutput ::
  "filesys \<Rightarrow> string \<Rightarrow> string list \<Rightarrow> TracebackSystem \<Rightarrow> TracebackSystem" where
  "parseClangTidyOutput fs output files this =
     foldl (clangTidyMatch fs files) this (rx_match_all clangTidyRegex output)"

subsection \<open>checkCompilation\<close>

text \<open>\<^verbatim>\<open>f.endsWith('.c') || f.endsWith('.cpp')\<close>\<close>

definition isCFile :: "string \<Rightarrow> bool" where
  "isCFile f = (endsWith f ''.c'' \<or> endsWith f ''.cpp'')"

text \<open>The synthetic translation unit \<^verbatim>\<open>testCode\<close>.\<close>

definition testCode :: "filesys \<Rightarrow> string list \<Rightarrow> string" where
  "testCode fs files =
     (let allIncludes = extractIncludes fs files;
          allCode = combineCode fs files
      in join [CHR 0x0A] allIncludes @ [CHR 0x0A, CHR 0x0A] @ allCode)"

definition compilerArgs :: "host \<Rightarrow> string \<Rightarrow> string list" where
  "compilerArgs h codeDir =
     [''-c'', pjoin h codeDir ''__test_compile.c'',
      ''-o'', pjoin h codeDir ''__test_compile.o'',
      ''-std=c11'', ''-Wall'', ''-Wextra'', ''-Werror'', ''-I'', codeDir]"

text \<open>
  The cleanup: \<^verbatim>\<open>unlinkSync\<close> of the test file throws when the file is gone, which
  skips the object file; the \<^verbatim>\<open>catch\<close> swallows it.
\<close>

definition cleanupCompile :: "host \<Rightarrow> string \<Rightarrow> filesys \<Rightarrow> filesys" where
  "cleanupCompile h codeDir fs =
     (let testFile = pjoin h codeDir ''__test_compile.c'';
          objFile = pjoin h codeDir ''__test_compile.o''
      in case fs testFile of
           None \<Rightarrow> fs
         | Some t \<Rightarrow> (fs(testFile := None))(objFile := None))"

text \<open>
  \<^verbatim>\<open>checkCompilation\<close>.  When the directory of the test file is missing,
  \<^verbatim>\<open>writeFileSync\<close> throws and the outer \<^verbatim>\<open>catch\<close> ends the check: nothing is
  written and the compiler is not run.
\<close>

definition checkCompilation ::
  "host \<Rightarrow> string \<Rightarrow> string list \<Rightarrow> TracebackSystem \<times> filesys \<Rightarrow> TracebackSystem \<times> filesys"
  where
  "checkCompilation h codeDir files st =
     (let this = fst st; fs = snd st;
          cFiles = filter isCFile files
      in if cFiles = [] then (this, fs)
         else
           (let testFile = pjoin h codeDir ''__test_compile.c''
            in if \<not> isDirectory h (pdirname h testFile) then (this, fs)
               else
                 (let fs1 = fs(testFile \<mapsto> testCode fs files);
                      run = spawnSync h (compiler (options this)) (compilerArgs h codeDir) fs1;
                      result = fst run; fs2 = snd run;
                      this1 = (if status result \<noteq> Some 0
                               then (let errorOutput =
                                           (if stderr result \<noteq> [] then stderr result
                                            else stdout result)
                                     in parseCompilerErrors fs2 errorOutput files this)
                               else this)
                  in (this1, cleanupCompile h codeDir fs2))))"

subsection \<open>runStaticAnalysis\<close>

definition runCppcheck ::
  "host \<Rightarrow> string list \<Rightarrow> TracebackSystem \<times> filesys \<Rightarrow> TracebackSystem \<times> filesys" where
  "runCppcheck h files st =
     (let this = fst st; fs = snd st;
          cFiles = filter isCFile files
      in if cFiles = [] then (this, fs)
         else
           (let run = spawnSync h ''cppcheck''
                        ([''--enable=all'', ''--std=c11'', ''--quiet'', ''--error-exitcode=0'']
                         @ cFiles) fs;
                result = fst run; fs1 = snd run
            in (if stdout result \<noteq> []
                then parseCppcheckOutput fs1 (stdout result) files this
                else this,
                fs1)))"

definition runClangTidy ::
  "host \<Rightarrow> string list \<Rightarrow> TracebackSystem \<times> filesys \<Rightarrow> TracebackSystem \<times> filesys" where
  "runClangTidy h files st =
     (let this = fst st; fs = snd st;
          cFiles = filter isCFile files
      in if cFiles = [] then (this, fs)
         else
           (let run = spawnSync h ''clang-tidy''
                        (cFiles @ [''--'', ''-std=c11'', ''-I'', pdirname h (hd cFiles)]) fs;
                result = fst run; fs1 = snd run
            in (if stdout result \<noteq> []
                then parseClangTidyOutput fs1 (stdout result) files this
                else this,
                fs1)))"

definition runStaticAnalysis ::
  "host \<Rightarrow> string list \<Rightarrow> TracebackSystem \<times> filesys \<Rightarrow> TracebackSystem \<times> filesys" where
  "runStaticAnalysis h files st = runClangTidy h files (runCppcheck h files st)"

subsection \<open>analyzeCode\<close>

text \<open>
  \<^verbatim>\<open>groupByType\<close>: the counts per type, in the order the types first occur (the
  key order of the object, for keys that are not numerals).
\<close>

fun bumpGroup :: "(string \<times> nat) list \<Rightarrow> string \<Rightarrow> (string \<times> nat) list" where
  "bumpGroup [] k = [(k, 1)]"
| "bumpGroup ((k', n) # groups) k =
     (if k' = k then (k', n + 1) # groups else (k', n) # bumpGroup groups k)"

definition groupByType :: "Issue list \<Rightarrow> (string \<times> nat) list" where
  "groupByType issues = foldl (\<lambda>groups issue. bumpGroup groups (type issue)) [] issues"

definition getSummary :: "TracebackSystem \<Rightarrow> Summary" where
  "getSummary this =
     \<lparr>totalErrors = length (errors this),
      totalWarnings = length (warnings this),
      totalFixes = length (fixes this),
      errorTypes = groupByType (errors this),
      warningTypes = groupByType (warnings this)\<rparr>"

text \<open>
  \<^verbatim>\<open>analyzeCode(codeDir, files)\<close>: \<open>files\<close> is \<open>None\<close> for null.  The result is
  \<open>None\<close> when \<^verbatim>\<open>readdirSync\<close> throws, which the source does not catch; otherwise
  the returned object, the instance and the files afterwards.
\<close>

definition hasSourceExt :: "string \<Rightarrow> bool" where
  "hasSourceExt f = (endsWith f ''.c'' \<or> endsWith f ''.h'' \<or> endsWith f ''.cpp'')"

definition runPasses ::
  "host \<Rightarrow> string \<Rightarrow> string list \<Rightarrow> TracebackSystem \<Rightarrow> filesys \<Rightarrow>
   AnalysisResult \<times> TracebackSystem \<times> filesys" where
  "runPasses h codeDir files this0 fs =
     (let codeFiles = map (pjoin h codeDir) files;
          this1 = checkSyntax fs codeFiles this0;
          st2 = (if useCompiler (options this1)
                 then checkCompilation h codeDir codeFiles (this1, fs) else (this1, fs));
          st3 = (if useStaticAnalysis (options (fst st2))
                 then runStaticAnalysis h codeFiles st2 else st2);
          this4 = checkCodeQuality (snd st3) codeFiles (fst st3)
      in (\<lparr>r_errors = errors this4, r_warnings = warnings this4, r_fixes = fixes this4,
           r_summary = getSummary this4\<rparr>,
          this4, snd st3))"

definition analyzeCode ::
  "host \<Rightarrow> TracebackSystem \<Rightarrow> string \<Rightarrow> string list option \<Rightarrow> filesys \<Rightarrow>
   (AnalysisResult \<times> TracebackSystem \<times> filesys) option" where
  "analyzeCode h this codeDir files fs =
     (let this0 = this\<lparr>errors := [], warnings := [], fixes := []\<rparr>
      in case files of
           Some fl \<Rightarrow> Some (runPasses h codeDir fl this0 fs)
         | None \<Rightarrow>
             (case readdirSync h fs codeDir of
                None \<Rightarrow> None
              | Some names \<Rightarrow> Some (runPasses h codeDir (filter hasSourceExt names) this0 fs)))"

section \<open>getAIFixes\<close>

text \<open>Truthiness, and reading a property of a JSON value (undefined when absent).\<close>

fun truthy :: "jsval \<Rightarrow> bool" where
  "truthy JUndefined = False"
| "truthy JNull = False"
| "truthy (JBool b) = b"
| "truthy (JNumber n) = (n \<noteq> 0)"
| "truthy (JString s) = (s \<noteq> [])"
| "truthy (JArray xs) = True"
| "truthy (JObject kvs) = True"

fun getProp :: "jsval \<Rightarrow> string \<Rightarrow> jsval" where
  "getProp (JObject kvs) k = (case map_of kvs k of Some v \<Rightarrow> v | None \<Rightarrow> JUndefined)"
| "getProp v k = JUndefined"

definition getFileContent :: "filesys \<Rightarrow> string \<Rightarrow> string list \<Rightarrow> string" where
  "getFileContent fs fileName codeFiles =
     (case find (\<lambda>f. includes_str f fileName \<or> includes_str fileName (basename f)) codeFiles of
        None \<Rightarrow> []
      | Some filePath \<Rightarrow>
          (if filePath \<noteq> [] then (case fs filePath of Some content \<Rightarrow> content | None \<Rightarrow> [])
           else []))"

text \<open>
  \<^verbatim>\<open>getCodeContext\<close>.  With NaN for the line, \<^verbatim>\<open>slice(NaN, NaN)\<close> is empty and so
  is the context.
\<close>

definition getCodeContext :: "string \<Rightarrow> jsnum \<Rightarrow> int \<Rightarrow> string" where
  "getCodeContext content lineNum contextLines =
     (case lineNum of
        NaN \<Rightarrow> []
      | Num n \<Rightarrow>
          (let lines = split_nl content;
               start = max 0 (n - contextLines - 1);
               end' = min (int (length lines)) (n + contextLines);
               context = js_slice lines start end'
           in join [CHR 0x0A]
                (map (\<lambda>(idx, l).
                        (let actualLine = start + int idx + 1;
                             marker = (if actualLine = n then ''>>> '' else ''    '')
                         in marker @ showNum (Num actualLine) @ '': '' @ l))
                     (enumerate 0 context))))"

definition buildPrompt :: "filesys \<Rightarrow> string list \<Rightarrow> Issue \<Rightarrow> string" where
  "buildPrompt fs codeFiles err =
     (let fileContent = getFileContent fs (file err) codeFiles
      in ''Fix this C code error:'' @ [CHR 0x0A, CHR 0x0A] @
         ''File: '' @ file err @ [CHR 0x0A] @
         ''Line: '' @ showNum (line err) @ [CHR 0x0A] @
         ''Error: '' @ message err @ [CHR 0x0A] @
         ''Code context:'' @ [CHR 0x0A] @
         getCodeContext fileContent (line err) 5 @ [CHR 0x0A, CHR 0x0A] @
         ''Provide ONLY the corrected code for the problematic line(s). No explanations.'')"

definition generateUrl :: string where
  "generateUrl = ''http://127.0.0.1:11434/api/generate''"

definition defaultModel :: string where
  "defaultModel = ''qwen2.5:1.5b''"

text \<open>
  The two TypeErrors the handlers can raise themselves: reading \<^verbatim>\<open>.code\<close> of a null
  body, and \<^verbatim>\<open>msg.toLowerCase()\<close> on an error text that is not a string.
\<close>

definition typeErrorNullBody :: js_error where
  "typeErrorNullBody =
     \<lparr>err_response_error = JUndefined,
      err_message = ''Cannot read properties of null (reading 'code')'',
      err_code = []\<rparr>"

definition typeErrorNotString :: js_error where
  "typeErrorNotString =
     \<lparr>err_response_error = JUndefined,
      err_message = ''msg.toLowerCase is not a function'',
      err_code = []\<rparr>"

text \<open>
  From the response to \<^verbatim>\<open>fixSuggestion\<close>: \<open>Inl\<close> when reading the body throws,
  \<open>Inr None\<close> when it stays null.
\<close>

definition extractSuggestion :: "host \<Rightarrow> jsval \<Rightarrow> js_error + string option" where
  "extractSuggestion h data =
     (let r = getProp data ''response'';
          body = (if truthy r then r else data);
          fromObject =
            (case getProp body ''code'' of
               JString s \<Rightarrow> Inr (Some s)
             | _ \<Rightarrow> (case getProp body ''fix'' of
                        JString s \<Rightarrow> Inr (Some s)
                      | _ \<Rightarrow> (case getProp body ''text'' of
                                 JString s \<Rightarrow> Inr (Some s)
                               | _ \<Rightarrow> Inr (Some (json_stringify h body)))))
      in case body of
           JString s \<Rightarrow> Inr (Some s)
         | JNull \<Rightarrow> Inl typeErrorNullBody
         | JObject kvs \<Rightarrow> fromObject
         | JArray xs \<Rightarrow> fromObject
         | _ \<Rightarrow> Inr None)"

text \<open>
  The text the inner handler classifies: \<^verbatim>\<open>err.response.data.error\<close> when truthy,
  else \<^verbatim>\<open>err.message\<close>; \<open>None\<close> when that text is not a string.
\<close>

definition innerMsg :: "js_error \<Rightarrow> string option" where
  "innerMsg e =
     (if truthy (err_response_error e)
      then (case err_response_error e of JString s \<Rightarrow> Some s | _ \<Rightarrow> None)
      else Some (err_message e))"

datatype attempt = Succeeded | NextModel | Thrown js_error

text \<open>The inner \<^verbatim>\<open>catch (innerErr)\<close>.\<close>

definition innerCatch :: "string option \<Rightarrow> string \<Rightarrow> js_error \<Rightarrow> attempt" where
  "innerCatch fallback model innerErr =
     (case innerMsg innerErr of
        None \<Rightarrow> Thrown typeErrorNotString
      | Some msg \<Rightarrow>
          if includes_str (toLowerCase msg) ''requires more system memory''
             \<and> Some model \<noteq> fallback
          then NextModel
          else if (err_code innerErr = ''ECONNABORTED'' \<or> includes_str msg ''timeout'')
                  \<and> Some model \<noteq> fallback \<and> fallback \<noteq> None
          then NextModel
          else Thrown innerErr)"

text \<open>
  One turn of the loop over \<^verbatim>\<open>modelsToTry\<close>.  The state is the \<^verbatim>\<open>fixes\<close> array and
  the requests posted so far.
\<close>

definition attemptModel ::
  "host \<Rightarrow> (request list \<Rightarrow> request \<Rightarrow> js_error + jsval) \<Rightarrow> string \<Rightarrow> string option \<Rightarrow>
   Issue \<Rightarrow> string \<Rightarrow> string \<Rightarrow> Fix list \<times> request list \<Rightarrow>
   attempt \<times> Fix list \<times> request list" where
  "attemptModel h post primaryModel fallback err prompt model st =
     (let fxs = fst st; calls = snd st;
          req = (generateUrl, model, prompt);
          calls1 = calls @ [req]
      in case post calls req of
           Inl innerErr \<Rightarrow> (innerCatch fallback model innerErr, fxs, calls1)
         | Inr data \<Rightarrow>
             (case extractSuggestion h data of
                Inl innerErr \<Rightarrow> (innerCatch fallback model innerErr, fxs, calls1)
              | Inr sug \<Rightarrow>
                  (let fixSuggestion =
                         sanitizeFixSuggestion (case sug of Some s \<Rightarrow> s | None \<Rightarrow> [])
                   in (Succeeded,
                       if fixSuggestion \<noteq> []
                       then fxs @ [\<lparr>error = err, suggestion = fixSuggestion,
                                    confidence = (if model = primaryModel then 0.8 else 0.7)\<rparr>]
                       else fxs,
                       calls1))))"

text \<open>The loop over \<^verbatim>\<open>modelsToTry\<close>: \<open>Some e\<close> when \<open>e\<close> is thrown out of it.\<close>

fun tryModels ::
  "host \<Rightarrow> (request list \<Rightarrow> request \<Rightarrow> js_error + jsval) \<Rightarrow> string \<Rightarrow> string option \<Rightarrow>
   Issue \<Rightarrow> string \<Rightarrow> string list \<Rightarrow> Fix list \<times> request list \<Rightarrow>
   js_error option \<times> Fix list \<times> request list" where
  "tryModels h post primaryModel fallback err prompt [] st = (None, st)"
| "tryModels h post primaryModel fallback err prompt (model # models) st =
     (case attemptModel h post primaryModel fallback err prompt model st of
        (Succeeded, st') \<Rightarrow> (None, st')
      | (NextModel, st') \<Rightarrow> tryModels h post primaryModel fallback err prompt models st'
      | (Thrown e, st') \<Rightarrow> (Some e, st'))"

definition modelsToTry :: "string \<Rightarrow> string option \<Rightarrow> string list" where
  "modelsToTry primaryModel fallback =
     primaryModel #
     (case fallback of
        None \<Rightarrow> []
      | Some fb \<Rightarrow> if fb \<noteq> primaryModel then [fb] else [])"

text \<open>
  The body of the loop over the errors, with the outer \<^verbatim>\<open>catch (err)\<close>: \<open>True\<close> to
  go on with the next error (the end of the body, or \<^verbatim>\<open>continue\<close>), \<open>False\<close> for
  \<^verbatim>\<open>break\<close>.
\<close>

definition processError ::
  "host \<Rightarrow> (request list \<Rightarrow> request \<Rightarrow> js_error + jsval) \<Rightarrow> string \<Rightarrow> string option \<Rightarrow>
   filesys \<Rightarrow> string list \<Rightarrow> Issue \<Rightarrow> Fix list \<times> request list \<Rightarrow>
   bool \<times> Fix list \<times> request list" where
  "processError h post primaryModel fallback fs codeFiles err st =
     (let prompt = buildPrompt fs codeFiles err
      in case tryModels h post primaryModel fallback err prompt
                (modelsToTry primaryModel fallback) st of
           (None, st') \<Rightarrow> (True, st')
         | (Some e, st') \<Rightarrow>
             (if err_code e = ''ECONNABORTED'' \<or> includes_str (err_message e) ''timeout''
              then (True, st')
              else (False, st')))"

fun fixLoop ::
  "host \<Rightarrow> (request list \<Rightarrow> request \<Rightarrow> js_error + jsval) \<Rightarrow> string \<Rightarrow> string option \<Rightarrow>
   filesys \<Rightarrow> string list \<Rightarrow> Issue list \<Rightarrow> Fix list \<times> request list \<Rightarrow>
   Fix list \<times> request list" where
  "fixLoop h post primaryModel fallback fs codeFiles [] st = st"
| "fixLoop h post primaryModel fallback fs codeFiles (err # errs) st =
     (case processError h post primaryModel fallback fs codeFiles err st of
        (True, st') \<Rightarrow> fixLoop h post primaryModel fallback fs codeFiles errs st'
      | (False, st') \<Rightarrow> st')"

text \<open>
  \<^verbatim>\<open>getAIFixes(errors, codeFiles)\<close>: the returned array, the instance afterwards, and the
  requests posted (after the \<open>calls\<close> made before).
\<close>

definition getAIFixes ::
  "host \<Rightarrow> TracebackSystem \<Rightarrow> Issue list \<Rightarrow> string list \<Rightarrow> filesys \<Rightarrow> request list \<Rightarrow>
   Fix list \<times> TracebackSystem \<times> request list" where
  "getAIFixes h this errs codeFiles fs calls =
     (case axios h of
        None \<Rightarrow> ([], this, calls)
      | Some post \<Rightarrow>
          if \<not> useAI (options this) then ([], this, calls)
          else
            (let primaryModel = (if aiModel (options this) \<noteq> [] then aiModel (options this)
                                 else defaultModel);
                 fallback = (if fallbackModel (options this) \<noteq> []
                             then Some (fallbackModel (options this)) else None);
                 st = fixLoop h post primaryModel fallback fs codeFiles (take 5 errs) ([], calls)
             in (fst st, this\<lparr>fixes := fst st\<rparr>, snd st)))"

section \<open>applyFixes\<close>

text \<open>The error \<^verbatim>\<open>readFileSync\<close> throws on a directory.\<close>

definition eisdir :: js_error where
  "eisdir =
     \<lparr>err_response_error = JUndefined,
      err_message = ''EISDIR: illegal operation on a directory, read'',
      err_code = ''EISDIR''\<rparr>"

text \<open>
  The loop body of \<^verbatim>\<open>applyFixes\<close>.  The state is the \<^verbatim>\<open>applied\<close> array and the
  \<^verbatim>\<open>fileMap\<close> (a JavaScript Map: an association list in insertion order).  The
  result is \<open>Inl\<close> when \<^verbatim>\<open>readFileSync\<close> throws: the target exists but is a directory.
\<close>

definition applyFix_step ::
  "host \<Rightarrow> string \<Rightarrow> filesys \<Rightarrow>
   AppliedFix list \<times> (string \<times> string list) list \<Rightarrow> Fix \<Rightarrow>
   js_error + AppliedFix list \<times> (string \<times> string list) list" where
  "applyFix_step h codeDir fs st fix =
     (let applied = fst st; fileMap = snd st;
          err = error fix;
          filePath = pjoin h codeDir (file err)
      in if fs filePath = None \<and> \<not> isDirectory h filePath then Inr (applied, fileMap)
         else
           (case (if map_of fileMap filePath = None
                  then (case fs filePath of
                          None \<Rightarrow> Inl eisdir
                        | Some content \<Rightarrow> Inr (fileMap @ [(filePath, split_nl content)]))
                  else Inr fileMap) of
              Inl e \<Rightarrow> Inl e
            | Inr fileMap1 \<Rightarrow>
               (let lines = (case map_of fileMap1 filePath of Some ls \<Rightarrow> ls | None \<Rightarrow> [])
                in case jsub (line err) 1 of
                     NaN \<Rightarrow> Inr (applied, fileMap1)
                   | Num lineIdx \<Rightarrow>
                      if 0 \<le> lineIdx \<and> lineIdx < int (length lines)
                      then Inr (applied @ [\<lparr>af_file = file err, af_line = line err,
                                              af_old = lines ! nat lineIdx,
                                              af_new = trim (suggestion fix)\<rparr>],
                                map (\<lambda>(p, ls). if p = filePath
                                                then (p, ls[nat lineIdx := trim (suggestion fix)])
                                                else (p, ls)) fileMap1)
                      else Inr (applied, fileMap1))))"

text \<open>The loop over the Fixes: it ends at the first Fix whose step throws.\<close>

fun applyLoop ::
  "host \<Rightarrow> string \<Rightarrow> filesys \<Rightarrow> Fix list \<Rightarrow>
   AppliedFix list \<times> (string \<times> string list) list \<Rightarrow>
   js_error + AppliedFix list \<times> (string \<times> string list) list" where
  "applyLoop h codeDir fs [] st = Inr st"
| "applyLoop h codeDir fs (f # fxs) st =
     (case applyFix_step h codeDir fs st f of
        Inl e \<Rightarrow> Inl e
      | Inr st' \<Rightarrow> applyLoop h codeDir fs fxs st')"

text \<open>Writing the touched files back, in the Map's order.\<close>

fun writeBack :: "(string \<times> string list) list \<Rightarrow> filesys \<Rightarrow> filesys" where
  "writeBack [] fs = fs"
| "writeBack ((filePath, lines) # rest) fs =
     writeBack rest (fs(filePath \<mapsto> join [CHR 0x0A] lines))"

text \<open>
  \<^verbatim>\<open>applyFixes(codeDir, fixes)\<close>: what the call gives (the error thrown, or the
  \<^verbatim>\<open>applied\<close> array returned) and the files afterwards.  Nothing is written before the
  loop has ended, so a call that throws leaves the files as they were.
\<close>

definition applyFixes ::
  "host \<Rightarrow> string \<Rightarrow> Fix list \<Rightarrow> filesys \<Rightarrow> (js_error + AppliedFix list) \<times> filesys" where
  "applyFixes h codeDir fxs fs =
     (case applyLoop h codeDir fs fxs ([], []) of
        Inl e \<Rightarrow> (Inl e, fs)
      | Inr st \<Rightarrow> (Inr (fst st), writeBack (snd st) fs))"

section \<open>Specification-level notions and concrete inputs\<close>

text \<open>
  A host for the concrete runs below.  Its \<^verbatim>\<open>path.join\<close> and \<^verbatim>\<open>path.dirname\<close>
  are what the platform's do on a directory and a file name free of dots and doubled
  separators; its directories are \<^verbatim>\<open>d\<close>, \<^verbatim>\<open>d/sub\<close> and \<^verbatim>\<open>proj\<close>; it has no
  \<^verbatim>\<open>axios\<close>, and its external tools are missing (no status, no output).
\<close>

definition pjoin_plain :: "string \<Rightarrow> string \<Rightarrow> string" where
  "pjoin_plain d f = d @ ''/'' @ f"

definition pdirname_plain :: "string \<Rightarrow> string" where
  "pdirname_plain p =
     (case dropWhile (\<lambda>c. c \<noteq> CHR ''/'') (rev p) of
        [] \<Rightarrow> ''.''
      | c # r \<Rightarrow> rev r)"

definition plain_host :: host where
  "plain_host =
     \<lparr>pjoin = pjoin_plain, pdirname = pdirname_plain, readdirSync = (\<lambda>fs d. None),
      isDirectory = (\<lambda>p. p = ''d'' \<or> p = ''proj'' \<or> p = ''d/sub''),
      spawnSync = (\<lambda>cmd args fs. (\<lparr>status = None, stdout = [], stderr = []\<rparr>, fs)),
      axios = None, json_stringify = (\<lambda>v. [])\<rparr>"

definition fs_one_line :: filesys where
  "fs_one_line = [''d/a.c'' \<mapsto> ''x'']"

definition fix_two_lines :: Fix where
  "fix_two_lines =
     \<lparr>error = \<lparr>file = ''a.c'', line = Num 1, column = Num 0, message = ''m'',
                type = ''syntax'', code = None, severity = ''error''\<rparr>,
      suggestion = [CHR ''a'', CHR 0x0A, CHR ''b''], confidence = 0.8\<rparr>"











definition fs_scenario_A :: filesys where
  "fs_scenario_A = [''proj/a.c'' \<mapsto> ''int x'']"

definition fs_scenario_A_nl :: filesys where
  "fs_scenario_A_nl = [''proj/a.c'' \<mapsto> [CHR ''i'', CHR ''n'', CHR ''t'', CHR '' '', CHR ''x'', CHR 0x0A]]"

definition issue_scenario_A :: Issue where
  "issue_scenario_A =
     \<lparr>file = ''a.c'', line = Num 1, column = Num 5,
      message = ''Missing semicolon or closing brace'', type = ''syntax'',
      code = Some ''int x'', severity = ''error''\<rparr>"

definition line_continued :: string where
  "line_continued = ''int x '' @ [CHR 0x5C]"

definition demo_options :: Options where
  "demo_options =
     \<lparr>useCompiler = True, useStaticAnalysis = True, useAI = True,
      aiModel = ''qwen2.5:1.5b'', fallbackModel = ''qwen2.5:1.5b'',
      compiler = ''gcc'', verbose = False, autoFix = False\<rparr>"

definition fresh_instance :: TracebackSystem where
  "fresh_instance = \<lparr>options = demo_options, errors = [], warnings = [], fixes = []\<rparr>"

definition used_instance :: TracebackSystem where
  "used_instance =
     \<lparr>options = demo_options, errors = [issue_scenario_A], warnings = [issue_scenario_A],
      fixes = []\<rparr>"



definition isTimeoutOuter :: "js_error \<Rightarrow> bool" where
  "isTimeoutOuter e = (err_code e = ''ECONNABORTED'' \<or> includes_str (err_message e) ''timeout'')"



text \<open>Failures of the inference service, and services that fail.\<close>

definition err_timeout :: js_error where
  "err_timeout =
     \<lparr>err_response_error = JUndefined, err_message = ''timeout of 60000ms exceeded'',
      err_code = ''ECONNABORTED''\<rparr>"





definition post_always_timeout :: "request list \<Rightarrow> request \<Rightarrow> js_error + jsval" where
  "post_always_timeout calls req = Inl err_timeout"


definition instance_AB :: TracebackSystem where
  "instance_AB =
     \<lparr>options = demo_options\<lparr>aiModel := ''A'', fallbackModel := ''B''\<rparr>,
      errors = [], warnings = [], fixes = []\<rparr>"

definition fs_empty :: filesys where
  "fs_empty = Map.empty"


text \<open>The capture groups of a regular expression.\<close>

fun grps :: "rx \<Rightarrow> nat set" where
  "grps (Cls P) = {}"
| "grps Eps = {}"
| "grps (Seq r1 r2) = grps r1 \<union> grps r2"
| "grps (Alt r1 r2) = grps r1 \<union> grps r2"
| "grps (Star r) = grps r"
| "grps (StarL r) = grps r"
| "grps (Grp i r) = insert i (grps r)"
| "grps Bol = {}"
| "grps Eol = {}"
| "grps EolM = {}"

text \<open>
  Following the claim's words: an Issue of severity \<open>sev\<close> whose line is a number
  not below zero; and an instance whose \<open>errors\<close> hold only such Issues of severity
  error and whose \<open>warnings\<close> only such Issues of severity warning.
\<close>

definition issueOk :: "string \<Rightarrow> Issue \<Rightarrow> bool" where
  "issueOk sev x = (severity x = sev \<and> (\<exists>n. line x = Num n \<and> 0 \<le> n))"

definition listsOk :: "TracebackSystem \<Rightarrow> bool" where
  "listsOk this =
     ((\<forall>x \<in> set (errors this). issueOk ''error'' x) \<and>
      (\<forall>x \<in> set (warnings this). issueOk ''warning'' x))"

text \<open>
  A host whose compiler and static analyzers answer: the compiler with one error and
  one warning, cppcheck with the line of Scenario C, clang-tidy with one warning.
\<close>

definition tools_spawnSync :: "string \<Rightarrow> string list \<Rightarrow> filesys \<Rightarrow> spawn_result \<times> filesys" where
  "tools_spawnSync cmd args fs =
     (if cmd = ''gcc''
      then (\<lparr>status = Some 1, stdout = [],
             stderr = ''a.c:1:5: error: expected ;'' @ [CHR 0x0A] @
                      ''a.c:2:1: warning: unused''\<rparr>, fs)
      else if cmd = ''cppcheck''
      then (\<lparr>status = Some 0, stdout = ''[a.c:10]: (warning) Unused variable '' @ [CHR 0x27, CHR ''x'', CHR 0x27],
             stderr = []\<rparr>, fs)
      else (\<lparr>status = Some 0, stdout = ''a.c:3:2: warning: use nullptr [modernize]'',
             stderr = []\<rparr>, fs))"

definition tools_host :: host where
  "tools_host = plain_host\<lparr>spawnSync := tools_spawnSync\<rparr>"



text \<open>
  Following the claim's words: a fence marker is three backticks in a row, and
  \<open>splitMarker\<close> cuts a text at its first marker, into the text before it and the text
  after it.  A fenced block is a marker, the next marker after it and the text between
  the two; \<open>fenceInners\<close> lists these texts, block after block, the search for a block
  starting where the block before it ended.  The language tag of a block is the run of
  letters, digits and underscores right after its opening marker, and \<open>fenceCode\<close> the
  rest of the text between the markers, trimmed.  The fence contents of a response are
  the codes of its blocks, one per line.
\<close>

fun splitMarker :: "string \<Rightarrow> (string \<times> string) option" where
  "splitMarker [] = None"
| "splitMarker (c # cs) =
     (if startsWith (c # cs) ''```'' then Some ([], drop 3 (c # cs))
      else (case splitMarker cs of
              None \<Rightarrow> None
            | Some (before, rest) \<Rightarrow> Some (c # before, rest)))"

lemma splitMarker_shorter:
  "splitMarker s = Some (before, rest) \<Longrightarrow> length rest < length s"
  by (induction s arbitrary: before) (auto split: if_splits option.splits)

function fenceInners :: "string \<Rightarrow> string list" where
  "fenceInners t =
     (case splitMarker t of
        None \<Rightarrow> []
      | Some (before, opened) \<Rightarrow>
          (case splitMarker opened of
             None \<Rightarrow> []
           | Some (inner, rest) \<Rightarrow> inner # fenceInners rest))"
  by pat_completeness auto
termination
proof (relation "measure length", goal_cases)
  case 1
  then show ?case by simp
next
  case (2 t x2 before opened y2 inner rest)
  then have "length opened < length t" "length rest < length opened"
    by (auto dest: splitMarker_shorter)
  then show ?case by simp
qed

declare fenceInners.simps [simp del]

definition fenceCode :: "string \<Rightarrow> string" where
  "fenceCode inner = trim (dropWhile isWord inner)"

definition fenceContents :: "string \<Rightarrow> string" where
  "fenceContents t = join [CHR 0x0A] (map fenceCode (fenceInners t))"

text \<open>A pattern that can only match at a fence marker, and the matches of a scan.\<close>

definition needsMarker :: "rx \<Rightarrow> bool" where
  "needsMarker r =
     (\<forall>pre rest caps. \<not> startsWith rest ''```'' \<longrightarrow> ms r (pre, rest, caps) = [])"

definition matchesOf :: "tok list \<Rightarrow> (string \<times> (nat \<times> string) list) list" where
  "matchesOf toks =
     concat (map (\<lambda>t. case t of Plain p \<Rightarrow> [] | Matched m caps \<Rightarrow> [(m, caps)]) toks)"

text \<open>
  The responses of Scenario E and of the sanitization property; a response whose prose
  quotes a word between single backticks; a response whose code starts on the line of
  the opening marker; and two responses whose fenced code holds a blank line, and a
  line that starts with a number.
\<close>

definition response_scenario_E :: string where
  "response_scenario_E =
     ''Here is the fix:'' @ [CHR 0x0A] @ ''```c'' @ [CHR 0x0A] @ ''int x = 0;'' @ [CHR 0x0A] @ ''```''"

definition response_with_note :: string where
  "response_with_note =
     ''```c'' @ [CHR 0x0A] @ ''int x = 0;'' @ [CHR 0x0A] @ ''```'' @ [CHR 0x0A] @
     ''Note: this initialises x.''"

definition response_quoted_word :: string where
  "response_quoted_word =
     ''Use `int` here:'' @ [CHR 0x0A] @ ''```c'' @ [CHR 0x0A] @ ''int x = 0;'' @ [CHR 0x0A] @
     ''```'' @ [CHR 0x0A] @ ''and `long` there:'' @ [CHR 0x0A] @ ''```'' @ [CHR 0x0A] @
     ''long y = 1;'' @ [CHR 0x0A] @ ''```''"

definition response_code_on_marker_line :: string where
  "response_code_on_marker_line = ''```int x = 0;```''"

definition response_blank_line :: string where
  "response_blank_line =
     ''```c'' @ [CHR 0x0A] @ ''int a;'' @ [CHR 0x0A, CHR 0x0A] @ ''int b;'' @ [CHR 0x0A] @ ''```''"

definition response_number_line :: string where
  "response_number_line =
     ''```c'' @ [CHR 0x0A] @ ''int a[] = {'' @ [CHR 0x0A] @ ''  10, 20'' @ [CHR 0x0A] @ ''};'' @
     [CHR 0x0A] @ ''```''"





text \<open>A regular expression without its groups, and a matcher state without its captures.\<close>

fun erase :: "rx \<Rightarrow> rx" where
  "erase (Seq r1 r2) = Seq (erase r1) (erase r2)"
| "erase (Alt r1 r2) = Alt (erase r1) (erase r2)"
| "erase (Star r) = Star (erase r)"
| "erase (StarL r) = StarL (erase r)"
| "erase (Grp i r) = erase r"
| "erase (Cls P) = Cls P"
| "erase Eps = Eps"
| "erase Bol = Bol"
| "erase Eol = Eol"
| "erase EolM = EolM"




text \<open>A file with a quoted include, and one with an include in angle brackets.\<close>

definition fs_quoted_include :: filesys where
  "fs_quoted_include =
     [''d/a.c'' \<mapsto> ''#include '' @ [CHR 0x22] @ ''a.h'' @ [CHR 0x22, CHR 0x0A] @ ''int x;'']"


text \<open>A pattern that matches no empty text.\<close>

definition consuming :: "rx \<Rightarrow> bool" where
  "consuming r =
     (\<forall>st st'. st' \<in> set (ms r st) \<longrightarrow> length (fst (snd st')) < length (fst (snd st)))"

section \<open>Lines and files\<close>

lemma split_nl_nonempty: "split_nl s \<noteq> []"
  by (induction s) (auto split: list.splits)

lemma join_split_nl: "join [CHR 0x0A] (split_nl s) = s"
proof (induction s)
  case Nil
  then show ?case by simp
next
  case (Cons c cs)
  obtain l ls where ls: "split_nl cs = l # ls"
    using split_nl_nonempty [of cs] by (cases "split_nl cs") auto
  show ?case
  proof (cases "c = CHR 0x0A")
    case True
    with Cons ls show ?thesis by simp
  next
    case False
    with Cons ls show ?thesis by (cases ls) auto
  qed
qed

lemma split_nl_no_nl: "l \<in> set (split_nl s) \<Longrightarrow> CHR 0x0A \<notin> set l"
proof (induction s arbitrary: l)
  case Nil
  then show ?case by simp
next
  case (Cons c cs)
  obtain l0 ls where ls: "split_nl cs = l0 # ls"
    using split_nl_nonempty [of cs] by (cases "split_nl cs") auto
  with Cons show ?case by (auto split: if_splits)
qed

lemma split_nl_append_line:
  "CHR 0x0A \<notin> set x \<Longrightarrow> split_nl (x @ CHR 0x0A # s) = x # split_nl s"
  by (induction x) auto

lemma split_nl_plain: "CHR 0x0A \<notin> set x \<Longrightarrow> split_nl x = [x]"
  by (induction x) auto

lemma split_nl_join:
  "ls \<noteq> [] \<Longrightarrow> \<forall>l \<in> set ls. CHR 0x0A \<notin> set l \<Longrightarrow> split_nl (join [CHR 0x0A] ls) = ls"
proof (induction "[CHR 0x0A]" ls rule: join.induct)
  case 1 then show ?case by simp
next
  case (2 x) then show ?case by (simp add: split_nl_plain)
next
  case (3 x y ys)
  then show ?case by (simp add: split_nl_append_line)
qed

lemma applyFixes_single:
  "applyFixes h codeDir [fix] fs =
     (let p = pjoin h codeDir (file (error fix)); s = trim (suggestion fix) in
      case fs p of
        None \<Rightarrow> (if isDirectory h p then Inl eisdir else Inr [], fs)
      | Some c \<Rightarrow>
         (case line (error fix) of
            NaN \<Rightarrow> (Inr [], fs(p \<mapsto> join [CHR 0x0A] (split_nl c)))
          | Num n \<Rightarrow>
             if 1 \<le> n \<and> n \<le> int (length (split_nl c))
             then (Inr [\<lparr>af_file = file (error fix), af_line = Num n,
                          af_old = split_nl c ! nat (n - 1), af_new = s\<rparr>],
                   fs(p \<mapsto> join [CHR 0x0A] ((split_nl c)[nat (n - 1) := s])))
             else (Inr [], fs(p \<mapsto> join [CHR 0x0A] (split_nl c)))))"
  by (auto simp: applyFixes_def applyFix_step_def Let_def split: option.splits jsnum.splits)

section \<open>The claims about applyFixes\<close>

text \<open>
  C1 (amended).  Applying a Fix twice leaves the files as applying it once does,
  for every host, directory, file system and Fix whose trimmed suggestion is a single
  line (contains no line feed).
\<close>

theorem applyFixes_idempotent_single_line:
  assumes "CHR 0x0A \<notin> set (trim (suggestion fix))"
  shows "snd (applyFixes h codeDir [fix] (snd (applyFixes h codeDir [fix] fs)))
         = snd (applyFixes h codeDir [fix] fs)"
proof -
  define p where "p = pjoin h codeDir (file (error fix))"
  define s where "s = trim (suggestion fix)"
  show ?thesis
  proof (cases "fs p")
    case None
    then show ?thesis by (simp add: applyFixes_single Let_def p_def)
  next
    case (Some c)
    show ?thesis
    proof (cases "line (error fix)")
      case NaN
      with Some show ?thesis
        by (simp add: applyFixes_single Let_def p_def [symmetric] join_split_nl)
    next
      case (Num n)
      show ?thesis
      proof (cases "1 \<le> n \<and> n \<le> int (length (split_nl c))")
        case False
        with Some Num show ?thesis
          by (auto simp: applyFixes_single Let_def p_def [symmetric] join_split_nl)
      next
        case True
        let ?ls = "(split_nl c)[nat (n - 1) := s]"
        have ne: "?ls \<noteq> []" using split_nl_nonempty [of c] by simp
        have nonl: "\<forall>l \<in> set ?ls. CHR 0x0A \<notin> set l"
        proof
          fix l assume "l \<in> set ?ls"
          then have "l = s \<or> l \<in> set (split_nl c)"
            using set_update_subset_insert [of "split_nl c" "nat (n - 1)" s] by auto
          then show "CHR 0x0A \<notin> set l"
            using assms split_nl_no_nl by (auto simp: s_def)
        qed
        have rt: "split_nl (join [CHR 0x0A] ?ls) = ?ls"
          by (rule split_nl_join [OF ne nonl])
        from Some Num True rt show ?thesis
          by (simp add: applyFixes_single Let_def p_def [symmetric] s_def [symmetric])
      qed
    qed
  qed
qed

theorem applyFixes_idempotent_single_line_witness:
  "CHR 0x0A \<notin> set (trim (suggestion (fix_two_lines\<lparr>suggestion := '' int y; ''\<rparr>))) \<and>
   snd (applyFixes plain_host ''d'' [fix_two_lines\<lparr>suggestion := '' int y; ''\<rparr>]
          (snd (applyFixes plain_host ''d'' [fix_two_lines\<lparr>suggestion := '' int y; ''\<rparr>] fs_one_line)))
     = snd (applyFixes plain_host ''d'' [fix_two_lines\<lparr>suggestion := '' int y; ''\<rparr>] fs_one_line) \<and>
   snd (applyFixes plain_host ''d'' [fix_two_lines\<lparr>suggestion := '' int y; ''\<rparr>] fs_one_line) ''d/a.c''
     = Some ''int y;''"
proof -
  have h: "CHR 0x0A \<notin> set (trim (suggestion (fix_two_lines\<lparr>suggestion := '' int y; ''\<rparr>)))"
    by (simp add: trim_def isSpace_def)
  have v: "snd (applyFixes plain_host ''d'' [fix_two_lines\<lparr>suggestion := '' int y; ''\<rparr>] fs_one_line) ''d/a.c''
     = Some ''int y;''"
    by (simp add: applyFixes_single Let_def plain_host_def pjoin_plain_def fix_two_lines_def
        fs_one_line_def trim_def isSpace_def)
  from applyFixes_idempotent_single_line [OF h, of plain_host "''d''" fs_one_line] h v
  show ?thesis by blast
qed

text \<open>
  C1 as stated fails for a suggestion of two lines: on the one-line file \<^verbatim>\<open>x\<close> the
  first application writes two lines, and the second, replacing line 1 again, three.
\<close>

theorem applyFixes_multi_line_not_idempotent:
  "snd (applyFixes plain_host ''d'' [fix_two_lines] fs_one_line) ''d/a.c''
     = Some [CHR ''a'', CHR 0x0A, CHR ''b''] \<and>
   snd (applyFixes plain_host ''d'' [fix_two_lines]
          (snd (applyFixes plain_host ''d'' [fix_two_lines] fs_one_line))) ''d/a.c''
     = Some [CHR ''a'', CHR 0x0A, CHR ''b'', CHR 0x0A, CHR ''b'']"
  by (simp add: applyFixes_single Let_def plain_host_def pjoin_plain_def fix_two_lines_def
        fs_one_line_def trim_def isSpace_def)
















lemma length_split_nl_join:
  "ls \<noteq> [] \<Longrightarrow> \<forall>l \<in> set ls. CHR 0x0A \<notin> set l \<Longrightarrow>
   length (split_nl (join [CHR 0x0A] ls)) = length ls"
  by (simp add: split_nl_join)



section \<open>The claims about the syntax pass\<close>

lemma trim_keeps_last:
  assumes "\<not> isSpace b"
  shows "\<exists>r. rev (trim (xs @ [b])) = b # r"
proof -
  have "\<exists>ys. dropWhile isSpace (xs @ [b]) = ys @ [b]"
    using assms by (auto simp: dropWhile_append)
  then obtain ys where "dropWhile isSpace (xs @ [b]) = ys @ [b]" by blast
  then show ?thesis using assms by (simp add: trim_def)
qed

lemma endsWith_backslash_trim:
  assumes "endsWith l [CHR 0x5C]"
  shows "endsWith (trim l) [CHR 0x5C]"
proof -
  from assms have "take 1 (rev l) = [CHR 0x5C]"
    by (simp add: endsWith_def startsWith_def)
  then obtain r where "rev l = CHR 0x5C # r" by (cases "rev l") auto
  then have l: "l = rev r @ [CHR 0x5C]" by (metis rev_rev_ident rev.simps(2))
  have "\<not> isSpace (CHR 0x5C)" by (simp add: isSpace_def)
  from trim_keeps_last [OF this, of "rev r"] l
  show ?thesis by (auto simp: endsWith_def startsWith_def)
qed

lemma scenario_A_file: "checkSyntaxFile fs_scenario_A ''proj/a.c'' = [issue_scenario_A]"
  by code_simp

lemma scenario_A_nl_file: "checkSyntaxFile fs_scenario_A_nl ''proj/a.c'' = [issue_scenario_A]"
  by code_simp

text \<open>
  C7.  On the file \<^verbatim>\<open>a.c\<close> holding the one line \<^verbatim>\<open>int x\<close> (with or without a final
  line feed) the syntax pass adds exactly one Issue: file \<^verbatim>\<open>a.c\<close>, line 1, type
  \<^verbatim>\<open>syntax\<close>, severity \<^verbatim>\<open>error\<close>.  A line that ends in a backslash gives no Issue at
  all, whatever the checks match, and so does a file made of such lines.
\<close>

theorem checkSyntax_scenario_A_and_continuation:
  "errors (checkSyntax fs_scenario_A [''proj/a.c''] this) = errors this @ [issue_scenario_A] \<and>
   errors (checkSyntax fs_scenario_A_nl [''proj/a.c''] this) = errors this @ [issue_scenario_A] \<and>
   file issue_scenario_A = ''a.c'' \<and> line issue_scenario_A = Num 1 \<and>
   type issue_scenario_A = ''syntax'' \<and> severity issue_scenario_A = ''error'' \<and>
   (\<forall>name idx l. endsWith l [CHR 0x5C] \<longrightarrow> checkSyntaxLine name (idx, l) = []) \<and>
   (\<forall>fs path content.
      fs path = Some content \<and> (\<forall>l \<in> set (split_nl content). endsWith l [CHR 0x5C])
      \<longrightarrow> checkSyntaxFile fs path = [])"
proof -
  have line_exempt: "checkSyntaxLine name (idx, l) = []" if "endsWith l [CHR 0x5C]" for name idx l
    using endsWith_backslash_trim [OF that] by (simp add: checkSyntaxLine_def)
  have file_exempt: "checkSyntaxFile fs path = []"
    if "fs path = Some content" "\<forall>l \<in> set (split_nl content). endsWith l [CHR 0x5C]"
    for fs path content
  proof -
    have "\<forall>il \<in> set (enumerate 0 (split_nl content)). checkSyntaxLine (basename path) il = []"
    proof
      fix il assume "il \<in> set (enumerate 0 (split_nl content))"
      then have "snd il \<in> set (map snd (enumerate 0 (split_nl content)))"
        by (simp del: map_snd_enumerate)
      then have "snd il \<in> set (split_nl content)"
        by simp
      with that(2) have "endsWith (snd il) [CHR 0x5C]" by blast
      from line_exempt [OF this, of "basename path" "fst il"]
      show "checkSyntaxLine (basename path) il = []" by simp
    qed
    with that(1) show ?thesis by (simp add: checkSyntaxFile_def)
  qed
  show ?thesis
    using line_exempt file_exempt
    by (simp add: checkSyntax_def scenario_A_file scenario_A_nl_file issue_scenario_A_def)
qed

theorem checkSyntax_scenario_A_and_continuation_witness:
  "endsWith line_continued [CHR 0x5C] \<and> checkSyntaxLine ''a.c'' (0, line_continued) = [] \<and>
   checkSyntaxLine ''a.c'' (0, ''int x '') \<noteq> [] \<and>
   list_all (\<lambda>l. endsWith l [CHR 0x5C]) (split_nl line_continued) \<and>
   checkSyntaxFile [''proj/a.c'' \<mapsto> line_continued] ''proj/a.c'' = []"
proof -
  have e: "endsWith line_continued [CHR 0x5C]"
    by (simp add: endsWith_def startsWith_def line_continued_def)
  have n: "checkSyntaxLine ''a.c'' (0, ''int x '') \<noteq> []"
    by code_simp
  have s: "split_nl line_continued = [line_continued]"
    by (simp add: line_continued_def)
  have all: "\<forall>l \<in> set (split_nl line_continued). endsWith l [CHR 0x5C]"
    using e by (simp add: s)
  have f: "[''proj/a.c'' \<mapsto> line_continued] ''proj/a.c'' = Some line_continued" by simp
  from checkSyntax_scenario_A_and_continuation e
  have 1: "checkSyntaxLine ''a.c'' (0, line_continued) = []" by blast
  from checkSyntax_scenario_A_and_continuation f all
  have 2: "checkSyntaxFile [''proj/a.c'' \<mapsto> line_continued] ''proj/a.c'' = []" by blast
  from e n 1 2 all show ?thesis by (simp add: list_all_iff)
qed

section \<open>The passes keep the options\<close>

lemma pushIssue_options [simp]: "options (pushIssue b x this) = options this"
  by (simp add: pushIssue_def)

lemma foldl_options:
  "(\<And>t m. options (f t m) = options t) \<Longrightarrow> options (foldl f this xs) = options this"
  by (induction xs arbitrary: this) auto

lemma checkSyntax_options [simp]: "options (checkSyntax fs files this) = options this"
  by (simp add: checkSyntax_def)

lemma checkCodeQuality_options [simp]: "options (checkCodeQuality fs files this) = options this"
  by (simp add: checkCodeQuality_def)

lemma parseCompilerErrors_options [simp]:
  "options (parseCompilerErrors fs output files this) = options this"
  by (simp add: parseCompilerErrors_def Let_def compilerMatch_def foldl_options)

lemma parseCppcheckOutput_options [simp]:
  "options (parseCppcheckOutput fs output files this) = options this"
  by (simp add: parseCppcheckOutput_def Let_def cppcheckMatch_def foldl_options)

lemma parseClangTidyOutput_options [simp]:
  "options (parseClangTidyOutput fs output files this) = options this"
  by (simp add: parseClangTidyOutput_def Let_def clangTidyMatch_def foldl_options)

lemma checkCompilation_options [simp]:
  "options (fst (checkCompilation h codeDir files st)) = options (fst st)"
  by (simp add: checkCompilation_def Let_def)

lemma runCppcheck_options [simp]: "options (fst (runCppcheck h files st)) = options (fst st)"
  by (simp add: runCppcheck_def Let_def)

lemma runClangTidy_options [simp]: "options (fst (runClangTidy h files st)) = options (fst st)"
  by (simp add: runClangTidy_def Let_def)

lemma runStaticAnalysis_options [simp]:
  "options (fst (runStaticAnalysis h files st)) = options (fst st)"
  by (simp add: runStaticAnalysis_def)

lemma runPasses_options [simp]:
  "options (fst (snd (runPasses h codeDir files this fs))) = options this"
  by (simp add: runPasses_def Let_def)

lemma reset_eq:
  "options this2 = options (this1 :: TracebackSystem) \<Longrightarrow>
   this2\<lparr>errors := [], warnings := [], fixes := []\<rparr>
     = this1\<lparr>errors := [], warnings := [], fixes := []\<rparr>"
  by (cases this1, cases this2) simp

lemma analyzeCode_options:
  assumes "analyzeCode h this codeDir files fs = Some (res, this', fs')"
  shows "options this' = options this"
proof -
  from assms obtain fl where "runPasses h codeDir fl
      (this\<lparr>errors := [], warnings := [], fixes := []\<rparr>) fs = (res, this', fs')"
    by (auto simp: analyzeCode_def Let_def split: option.splits)
  then have "this' = fst (snd (runPasses h codeDir fl
      (this\<lparr>errors := [], warnings := [], fixes := []\<rparr>) fs))" by simp
  then show ?thesis by simp
qed

section \<open>The claim about analyzeCode\<close>

text \<open>
  C10.  \<^verbatim>\<open>analyzeCode\<close> is a function of the host (the external tools and what they
  answer), the options, the directory, the file list and the files: two instances with
  the same options give the same result whatever their accumulators hold, and a second
  call on the instance the first call left, over the same files, gives the first
  result again (the accumulators are reset at the start, not appended to).
\<close>

theorem analyzeCode_deterministic:
  "(options this2 = options this1 \<longrightarrow>
      analyzeCode h this2 codeDir files fs = analyzeCode h this1 codeDir files fs) \<and>
   (analyzeCode h this1 codeDir files fs = Some (res, this', fs') \<longrightarrow>
      analyzeCode h this' codeDir files fs = Some (res, this', fs'))"
proof -
  have same: "analyzeCode h b codeDir files fs = analyzeCode h a codeDir files fs"
    if "options b = options a" for a b
    using reset_eq [OF that] by (simp add: analyzeCode_def)
  have again: "analyzeCode h this' codeDir files fs = Some (res, this', fs')"
    if run: "analyzeCode h this1 codeDir files fs = Some (res, this', fs')"
    using same [OF analyzeCode_options [OF run]] run by simp
  from same again show ?thesis by blast
qed

lemma demo_run:
  "map_option (\<lambda>r. (r_errors (fst r), r_warnings (fst r)))
     (analyzeCode plain_host used_instance ''proj'' (Some [''a.c'']) fs_scenario_A)
   = Some ([issue_scenario_A], [])"
  by code_simp

theorem analyzeCode_deterministic_witness:
  "options used_instance = options fresh_instance \<and>
   analyzeCode plain_host used_instance ''proj'' (Some [''a.c'']) fs_scenario_A
     = analyzeCode plain_host fresh_instance ''proj'' (Some [''a.c'']) fs_scenario_A \<and>
   map_option (\<lambda>r. (r_errors (fst r), r_warnings (fst r)))
     (analyzeCode plain_host fresh_instance ''proj'' (Some [''a.c'']) fs_scenario_A)
   = Some ([issue_scenario_A], []) \<and>
   (\<exists>res this' fs'.
      analyzeCode plain_host used_instance ''proj'' (Some [''a.c'']) fs_scenario_A
        = Some (res, this', fs') \<and>
      errors this' = [issue_scenario_A] \<and>
      analyzeCode plain_host this' ''proj'' (Some [''a.c'']) fs_scenario_A
        = Some (res, this', fs'))"
proof -
  have o: "options used_instance = options fresh_instance"
    by (simp add: used_instance_def fresh_instance_def)
  from analyzeCode_deterministic [of used_instance fresh_instance plain_host "''proj''"
      "Some [''a.c'']" fs_scenario_A] o
  have same: "analyzeCode plain_host used_instance ''proj'' (Some [''a.c'']) fs_scenario_A
     = analyzeCode plain_host fresh_instance ''proj'' (Some [''a.c'']) fs_scenario_A"
    by blast
  obtain res this' fs' where run:
    "analyzeCode plain_host used_instance ''proj'' (Some [''a.c'']) fs_scenario_A
       = Some (res, this', fs')"
    by (simp add: analyzeCode_def) (metis prod_cases3)
  from run have "errors this' = r_errors res"
    by (auto simp: analyzeCode_def runPasses_def Let_def)
  with demo_run run have er: "errors this' = [issue_scenario_A]" by simp
  from analyzeCode_deterministic [of this' used_instance plain_host "''proj''"
      "Some [''a.c'']" fs_scenario_A res this' fs'] run
  have again: "analyzeCode plain_host this' ''proj'' (Some [''a.c'']) fs_scenario_A
        = Some (res, this', fs')"
    by blast
  from run er again have
    "\<exists>res this' fs'.
      analyzeCode plain_host used_instance ''proj'' (Some [''a.c'']) fs_scenario_A
        = Some (res, this', fs') \<and>
      errors this' = [issue_scenario_A] \<and>
      analyzeCode plain_host this' ''proj'' (Some [''a.c'']) fs_scenario_A
        = Some (res, this', fs')"
    by blast
  with o same demo_run show ?thesis by simp
qed

section \<open>The claims about getAIFixes\<close>

lemma attemptModel_calls:
  "snd (snd (attemptModel h post primaryModel fallback err prompt model st))
     = snd st @ [(generateUrl, model, prompt)]"
  by (simp add: attemptModel_def Let_def split: sum.splits)

lemma tryModels_calls:
  "length (snd (snd (tryModels h post primaryModel fallback err prompt models st)))
     \<le> length (snd st) + length models"
proof (induction models arbitrary: st)
  case Nil
  then show ?case by simp
next
  case (Cons model models)
  obtain a st' where at: "attemptModel h post primaryModel fallback err prompt model st = (a, st')"
    by (cases "attemptModel h post primaryModel fallback err prompt model st") auto
  from attemptModel_calls [of h post primaryModel fallback err prompt model st] at
  have len: "length (snd st') = length (snd st) + 1" by simp
  show ?case
  proof (cases a)
    case NextModel
    with at Cons.IH [of st'] len show ?thesis by simp
  qed (use at len in auto)
qed

lemma processError_calls:
  "length (snd (snd (processError h post primaryModel fallback fs codeFiles err st)))
     \<le> length (snd st) + length (modelsToTry primaryModel fallback)"
proof -
  define r where "r = tryModels h post primaryModel fallback err (buildPrompt fs codeFiles err)
                        (modelsToTry primaryModel fallback) st"
  have "length (snd (snd r)) \<le> length (snd st) + length (modelsToTry primaryModel fallback)"
    unfolding r_def by (rule tryModels_calls)
  moreover have "snd (processError h post primaryModel fallback fs codeFiles err st) = snd r"
    by (cases r; cases "fst r") (auto simp: processError_def r_def [symmetric])
  ultimately show ?thesis by simp
qed

lemma fixLoop_calls:
  "length (snd (fixLoop h post primaryModel fallback fs codeFiles errs st))
     \<le> length (snd st) + length (modelsToTry primaryModel fallback) * length errs"
proof (induction errs arbitrary: st)
  case Nil
  then show ?case by simp
next
  case (Cons err errs)
  obtain b st' where pe: "processError h post primaryModel fallback fs codeFiles err st = (b, st')"
    by (cases "processError h post primaryModel fallback fs codeFiles err st") auto
  from processError_calls [of h post primaryModel fallback fs codeFiles err st] pe
  have len: "length (snd st') \<le> length (snd st) + length (modelsToTry primaryModel fallback)"
    by simp
  show ?case
  proof (cases b)
    case True
    with pe Cons.IH [of st'] len show ?thesis by simp
  next
    case False
    with pe len show ?thesis by simp
  qed
qed

lemma modelsToTry_length:
  "length (modelsToTry primaryModel fallback) \<le> 2 \<and>
   (fallback = None \<or> fallback = Some primaryModel \<longrightarrow>
      length (modelsToTry primaryModel fallback) = 1)"
  by (auto simp: modelsToTry_def split: option.splits)

text \<open>
  C3 (amended).  \<^verbatim>\<open>getAIFixes\<close> processes the first five errors only, and posts at
  most two requests for each of them (one per model to try): at most ten in all, and at
  most five when no fallback model other than the primary one is configured, as with
  the default options.
\<close>

theorem getAIFixes_call_bound:
  "getAIFixes h this errs codeFiles fs calls = getAIFixes h this (take 5 errs) codeFiles fs calls \<and>
   length (snd (snd (getAIFixes h this errs codeFiles fs calls)))
     \<le> length calls + 2 * min 5 (length errs) \<and>
   (fallbackModel (options this) = [] \<or>
    fallbackModel (options this) = (if aiModel (options this) \<noteq> [] then aiModel (options this)
                                     else defaultModel)
    \<longrightarrow> length (snd (snd (getAIFixes h this errs codeFiles fs calls)))
          \<le> length calls + min 5 (length errs))"
proof -
  define primaryModel where
    "primaryModel = (if aiModel (options this) \<noteq> [] then aiModel (options this) else defaultModel)"
  define fallback where
    "fallback = (if fallbackModel (options this) \<noteq> [] then Some (fallbackModel (options this))
                 else None)"
  have tt: "take 5 (take 5 errs) = take 5 errs" by simp
  have same: "getAIFixes h this errs codeFiles fs calls
                = getAIFixes h this (take 5 errs) codeFiles fs calls"
    by (simp only: getAIFixes_def tt)
  have calls_eq: "snd (snd (getAIFixes h this errs codeFiles fs calls)) =
      (case axios h of None \<Rightarrow> calls
       | Some post \<Rightarrow> if \<not> useAI (options this) then calls
           else snd (fixLoop h post primaryModel fallback fs codeFiles (take 5 errs) ([], calls)))"
    by (simp add: getAIFixes_def Let_def primaryModel_def fallback_def split: option.splits)
  have loop: "length (snd (fixLoop h post primaryModel fallback fs codeFiles (take 5 errs) ([], calls)))
      \<le> length calls + length (modelsToTry primaryModel fallback) * min 5 (length errs)" for post
    using fixLoop_calls [of h post primaryModel fallback fs codeFiles "take 5 errs" "([], calls)"]
    by (simp add: min.commute)
  have two: "length (snd (snd (getAIFixes h this errs codeFiles fs calls)))
     \<le> length calls + 2 * min 5 (length errs)"
  proof (cases "axios h")
    case None
    then show ?thesis by (simp add: calls_eq)
  next
    case (Some post)
    have m2: "length (modelsToTry primaryModel fallback) \<le> 2"
      using modelsToTry_length [of primaryModel fallback] by blast
    have "length (modelsToTry primaryModel fallback) * min 5 (length errs)
            \<le> 2 * min 5 (length errs)"
      using m2 by (rule mult_le_mono1)
    with loop [of post]
    have "length (snd (fixLoop h post primaryModel fallback fs codeFiles (take 5 errs) ([], calls)))
            \<le> length calls + 2 * min 5 (length errs)"
      by linarith
    with Some show ?thesis by (simp add: calls_eq)
  qed
  have one: "length (snd (snd (getAIFixes h this errs codeFiles fs calls)))
     \<le> length calls + min 5 (length errs)"
    if "fallbackModel (options this) = [] \<or> fallbackModel (options this) = primaryModel"
  proof (cases "axios h")
    case None
    then show ?thesis by (simp add: calls_eq)
  next
    case (Some post)
    from that have "fallback = None \<or> fallback = Some primaryModel"
      by (auto simp: fallback_def)
    with modelsToTry_length [of primaryModel fallback]
    have "length (modelsToTry primaryModel fallback) = 1" by blast
    with loop [of post] Some show ?thesis by (simp add: calls_eq)
  qed
  from same two one show ?thesis unfolding primaryModel_def by blast
qed

text \<open>C3 as stated fails: with a fallback model configured and a service that times
  out, eight errors give ten requests.\<close>

theorem getAIFixes_ten_calls:
  "length (snd (snd (getAIFixes (plain_host\<lparr>axios := Some post_always_timeout\<rparr>) instance_AB
      (replicate 8 issue_scenario_A) [] fs_empty []))) = 10"
  by code_simp

theorem getAIFixes_call_bound_witness:
  "fallbackModel (options fresh_instance) = aiModel (options fresh_instance) \<and>
   aiModel (options fresh_instance) \<noteq> [] \<and>
   length (snd (snd (getAIFixes (plain_host\<lparr>axios := Some post_always_timeout\<rparr>) fresh_instance
      (replicate 8 issue_scenario_A) [] fs_empty []))) \<le> 5"
proof -
  have a: "fallbackModel (options fresh_instance) = aiModel (options fresh_instance)"
    and b: "aiModel (options fresh_instance) \<noteq> []"
    by (simp_all add: fresh_instance_def demo_options_def)
  have c: "fallbackModel (options fresh_instance) =
             (if aiModel (options fresh_instance) \<noteq> [] then aiModel (options fresh_instance)
              else defaultModel)"
    using a b by simp
  from getAIFixes_call_bound [of "plain_host\<lparr>axios := Some post_always_timeout\<rparr>" fresh_instance
      "replicate 8 issue_scenario_A" "[]" fs_empty "[]"] c
  have "length (snd (snd (getAIFixes (plain_host\<lparr>axios := Some post_always_timeout\<rparr>)
      fresh_instance (replicate 8 issue_scenario_A) [] fs_empty [])))
      \<le> length ([] :: request list) + min 5 (length (replicate 8 issue_scenario_A))"
    by blast
  with a b show ?thesis by simp
qed



lemma typeErrorNullBody_thrown:
  "innerCatch (Some fb) model typeErrorNullBody = Thrown typeErrorNullBody"
  "\<not> isTimeoutOuter typeErrorNullBody"
  by code_simp+


















section \<open>What the matcher captures\<close>

lemma ms_Seq_elim:
  assumes "st' \<in> set (ms (Seq r1 r2) st)"
  obtains s1 where "s1 \<in> set (ms r1 st)" "st' \<in> set (ms r2 s1)"
  using assms by auto

text \<open>A match leaves the captures of the groups it does not contain alone.\<close>

lemma ms_frame:
  "st' \<in> set (ms r st) \<Longrightarrow> i \<notin> grps r \<Longrightarrow>
   map_of (snd (snd st')) i = map_of (snd (snd st)) i"
proof (induction r st arbitrary: st' rule: ms.induct)
  case (1 P pre rest caps)
  then show ?case by (cases rest) (auto split: if_splits)
next
  case (2 st)
  then show ?case by simp
next
  case (3 r1 r2 st)
  from "3.prems"(1) obtain s1 where a: "s1 \<in> set (ms r1 st)" and b: "st' \<in> set (ms r2 s1)"
    by auto
  from "3.IH"(1) [OF a] "3.IH"(2) [OF a b] "3.prems"(2) show ?case by simp
next
  case (4 r1 r2 st)
  from "4.prems"(1) have "st' \<in> set (ms r1 st) \<or> st' \<in> set (ms r2 st)" by simp
  from "4.prems"(2) have n1: "i \<notin> grps r1" and n2: "i \<notin> grps r2" by simp_all
  from "4.prems"(1) have "st' \<in> set (ms r1 st) \<or> st' \<in> set (ms r2 st)" by simp
  then show ?case
  proof
    assume "st' \<in> set (ms r1 st)"
    from "4.IH"(1) [OF this n1] show ?thesis .
  next
    assume "st' \<in> set (ms r2 st)"
    from "4.IH"(2) [OF this n2] show ?thesis .
  qed
next
  case (5 r pre rest caps)
  from "5.prems"(1) consider
    (stop) "st' = (pre, rest, caps)" |
    (iter) s1 where "s1 \<in> set (ms r (pre, rest, caps))"
      "length (fst (snd s1)) < length rest" "st' \<in> set (ms (Star r) s1)"
    by (auto split: if_splits)
  then show ?case
  proof cases
    case stop
    then show ?thesis by simp
  next
    case iter
    from "5.IH"(1) [OF iter(1)] "5.IH"(2) [OF iter(1) iter(2) iter(3)] "5.prems"(2)
    show ?thesis by simp
  qed
next
  case (6 r pre rest caps)
  from "6.prems"(1) consider
    (stop) "st' = (pre, rest, caps)" |
    (iter) s1 where "s1 \<in> set (ms r (pre, rest, caps))"
      "length (fst (snd s1)) < length rest" "st' \<in> set (ms (StarL r) s1)"
    by (auto split: if_splits)
  then show ?case
  proof cases
    case stop
    then show ?thesis by simp
  next
    case iter
    from "6.IH"(1) [OF iter(1)] "6.IH"(2) [OF iter(1) iter(2) iter(3)] "6.prems"(2)
    show ?thesis by simp
  qed
next
  case (7 j r pre rest caps)
  from "7.prems"(1) obtain s1 where a: "s1 \<in> set (ms r (pre, rest, caps))"
    and b: "snd (snd st') = (j, rev (take (length (fst s1) - length pre) (fst s1))) # snd (snd s1)"
    by (auto split: prod.splits)
  from "7.IH" [OF a] "7.prems"(2) b show ?case by simp
next
  case (8 pre rest caps)
  then show ?case by (auto split: if_splits)
next
  case (9 pre rest caps)
  then show ?case by (auto split: if_splits)
next
  case (10 pre rest caps)
  then show ?case by (cases rest) (auto split: if_splits)
qed

text \<open>A star over a class consumes code units of that class only.\<close>

lemma ms_Star_Cls:
  "st' \<in> set (ms (Star (Cls P)) (pre, rest, caps)) \<Longrightarrow>
   \<exists>m. rest = m @ fst (snd st') \<and> fst st' = rev m @ pre \<and> (\<forall>c \<in> set m. P c)"
proof (induction rest arbitrary: pre)
  case Nil
  then show ?case by simp
next
  case (Cons c cs)
  show ?case
  proof (cases "P c")
    case False
    with Cons.prems show ?thesis by simp
  next
    case True
    with Cons.prems have "st' = (pre, c # cs, caps) \<or> st' \<in> set (ms (Star (Cls P)) (c # pre, cs, caps))"
      by auto
    then show ?thesis
    proof
      assume "st' = (pre, c # cs, caps)"
      then show ?thesis by simp
    next
      assume "st' \<in> set (ms (Star (Cls P)) (c # pre, cs, caps))"
      from Cons.IH [OF this] obtain m where
        "cs = m @ fst (snd st')" "fst st' = rev m @ c # pre" "\<forall>x \<in> set m. P x" by blast
      with True show ?thesis by (intro exI [of _ "c # m"]) simp
    qed
  qed
qed

lemma ms_Plus_Cls:
  assumes "st' \<in> set (ms (Plus (Cls P)) (pre, rest, caps))"
  shows "\<exists>m. m \<noteq> [] \<and> rest = m @ fst (snd st') \<and> fst st' = rev m @ pre \<and> (\<forall>c \<in> set m. P c)"
proof -
  from assms obtain c cs where rest: "rest = c # cs" and pc: "P c"
    and st': "st' \<in> set (ms (Star (Cls P)) (c # pre, cs, caps))"
    by (cases rest) (auto simp: Plus_def split: if_splits)
  from ms_Star_Cls [OF st'] obtain m where
    "cs = m @ fst (snd st')" "fst st' = rev m @ c # pre" "\<forall>x \<in> set m. P x" by blast
  with rest pc show ?thesis by (intro exI [of _ "c # m"]) simp
qed

text \<open>So a group around \<^verbatim>\<open>\d+\<close> captures a run of digits that is not empty.\<close>

lemma ms_Grp_Plus_Cls:
  assumes "st' \<in> set (ms (Grp i (Plus (Cls P))) st)"
  shows "\<exists>m. m \<noteq> [] \<and> (\<forall>c \<in> set m. P c) \<and> map_of (snd (snd st')) i = Some m"
proof -
  obtain pre rest caps where st: "st = (pre, rest, caps)" by (cases st) auto
  from assms st obtain s1 where a: "s1 \<in> set (ms (Plus (Cls P)) (pre, rest, caps))"
    and b: "snd (snd st') = (i, rev (take (length (fst s1) - length pre) (fst s1))) # snd (snd s1)"
    by (auto split: prod.splits)
  from ms_Plus_Cls [OF a] obtain m where
    m: "m \<noteq> []" "fst s1 = rev m @ pre" "\<forall>c \<in> set m. P c" by blast
  from b m show ?thesis by (intro exI [of _ m]) simp
qed

text \<open>Every match a scan reports was found by the matcher, from no captures.\<close>

lemma rx_search_by_ms:
  "rx_search r pre rest = Some (gap, st') \<Longrightarrow> \<exists>p q. st' \<in> set (ms r (p, q, []))"
proof (induction r pre rest arbitrary: gap rule: rx_search.induct)
  case (1 r pre)
  show ?case
  proof (cases "ms r (pre, [], [])")
    case Nil
    with "1.prems" show ?thesis by simp
  next
    case (Cons s ss)
    with "1.prems" have "st' = s" by simp
    with Cons have "st' \<in> set (ms r (pre, [], []))" by simp
    then show ?thesis by blast
  qed
next
  case (2 r pre c cs)
  show ?case
  proof (cases "ms r (pre, c # cs, [])")
    case Nil
    with "2.prems" obtain gap' where "rx_search r (c # pre) cs = Some (gap', st')"
      by (auto split: option.splits)
    from "2.IH" [OF Nil this] show ?thesis .
  next
    case (Cons s ss)
    with "2.prems" have "st' \<in> set (ms r (pre, c # cs, []))" by auto
    then show ?thesis by blast
  qed
qed

lemma rx_scan_by_ms:
  "Matched m caps \<in> set (rx_scan r pre rest) \<Longrightarrow>
   \<exists>p q p' q'. (p', q', caps) \<in> set (ms r (p, q, []))"
proof (induction r pre rest rule: rx_scan.induct)
  case (1 r pre rest)
  show ?case
  proof (cases "rx_search r pre rest")
    case None
    with "1.prems" show ?thesis by (simp add: rx_scan.simps [of r pre rest])
  next
    case (Some a)
    obtain gap pre' rest' caps' where a: "a = (gap, (pre', rest', caps'))"
      by (cases a) auto
    define mm where "mm = rev (take (length pre' - (length pre + length gap)) pre')"
    from rx_search_by_ms [of r pre rest gap "(pre', rest', caps')"] Some a
    obtain p q where here: "(pre', rest', caps') \<in> set (ms r (p, q, []))" by auto
    from "1.prems" Some a consider
      (this_one) "caps = caps'" |
      (later1) "mm \<noteq> []" "Matched m caps \<in> set (rx_scan r pre' rest')" |
      (later2) c cs where "mm = []" "rest' = c # cs"
        "Matched m caps \<in> set (rx_scan r (c # pre') cs)"
      by (auto simp: rx_scan.simps [of r pre rest] Let_def mm_def split: list.splits if_splits)
    then show ?thesis
    proof cases
      case this_one
      with here show ?thesis by blast
    next
      case later1
      from "1.IH"(1) [OF Some a [symmetric] refl refl mm_def later1(1) later1(2)]
      show ?thesis .
    next
      case later2
      from "1.IH"(2) [OF Some a [symmetric] refl refl mm_def _ later2(2) later2(3)] later2(1)
      show ?thesis by simp
    qed
  qed
qed

lemma rx_match_all_by_ms:
  "(m, caps) \<in> set (rx_match_all r s) \<Longrightarrow> \<exists>p q p' q'. (p', q', caps) \<in> set (ms r (p, q, []))"
proof -
  assume "(m, caps) \<in> set (rx_match_all r s)"
  then have "Matched m caps \<in> set (rx_scan r [] s)"
    by (auto simp: rx_match_all_def split: tok.splits)
  then show ?thesis by (rule rx_scan_by_ms)
qed

section \<open>The claim about severities and lines\<close>

lemma readDigits_nonneg: "0 \<le> int (readDigits b ds)"
  by simp

text \<open>\<^verbatim>\<open>parseInt\<close> of a run of digits that is not empty is a number not below zero.\<close>

lemma parseInt_digits:
  assumes "ds \<noteq> []" "\<forall>c \<in> set ds. isDigit c"
  shows "\<exists>n. parseInt ds = Num n \<and> 0 \<le> n"
proof -
  obtain d ds' where ds: "ds = d # ds'" using assms(1) by (cases ds) auto
  with assms(2) have d: "isDigit d" by simp
  then have nospace: "\<not> isSpace d" and nosign: "d \<noteq> CHR ''-''" "d \<noteq> CHR ''+''"
    by (auto simp: isDigit_def isSpace_def)
  have nohex: "\<not> (length ds \<ge> 2 \<and> (startsWith ds ''0x'' \<or> startsWith ds ''0X''))"
  proof
    assume a: "length ds \<ge> 2 \<and> (startsWith ds ''0x'' \<or> startsWith ds ''0X'')"
    then obtain e ds'' where "ds' = e # ds''" using ds by (cases ds') auto
    with a ds have "e = CHR ''x'' \<or> e = CHR ''X''" by (auto simp: startsWith_def)
    moreover from assms(2) ds \<open>ds' = e # ds''\<close> have "isDigit e" by simp
    ultimately show False by (auto simp: isDigit_def)
  qed
  have tw: "takeWhile isDigit ds = ds" using assms(2) by (simp add: takeWhile_eq_all_conv)
  have dw: "dropWhile isSpace ds = ds" using ds nospace by simp
  have u: "(if ds \<noteq> [] \<and> (hd ds = CHR ''-'' \<or> hd ds = CHR ''+'') then tl ds else ds) = ds"
    using ds nosign by simp
  have neg: "(startsWith ds ''-'' \<and> ds \<noteq> []) = False"
    using ds nosign by (simp add: startsWith_def)
  have "parseInt ds = (case takeWhile isDigit ds of [] \<Rightarrow> NaN
          | d # ds \<Rightarrow> Num ((if False then - 1 else 1) * int (readDigits 10 (d # ds))))"
    unfolding parseInt_def Let_def dw u neg
    by (rule if_not_P [OF nohex])
  then have "parseInt ds = (case ds of [] \<Rightarrow> NaN
          | d # ds \<Rightarrow> Num ((if False then - 1 else 1) * int (readDigits 10 (d # ds))))"
    by (simp only: tw)
  then have "parseInt ds = Num (int (readDigits 10 ds))"
    by (simp add: ds)
  then show ?thesis by simp
qed

lemma grps_lit [simp]: "grps (lit s) = {}"
  by (induction s) auto

lemma ms_Seq_Grp_digits:
  assumes "st' \<in> set (ms (Seq (Grp i (Plus (Cls P))) r) st)" "i \<notin> grps r"
  shows "\<exists>m. m \<noteq> [] \<and> (\<forall>c \<in> set m. P c) \<and> cap (snd (snd st')) i = m"
proof -
  from assms(1) obtain s1 where a: "s1 \<in> set (ms (Grp i (Plus (Cls P))) st)"
    and b: "st' \<in> set (ms r s1)"
    by (rule ms_Seq_elim)
  from ms_Grp_Plus_Cls [OF a] obtain m where
    m: "m \<noteq> []" "\<forall>c \<in> set m. P c" "map_of (snd (snd s1)) i = Some m" by blast
  from ms_frame [OF b assms(2)] m(3) have "cap (snd (snd st')) i = m"
    by (simp add: cap_def)
  with m show ?thesis by blast
qed

lemma ms_Seq_tail:
  "st' \<in> set (ms (Seq r1 r2) st) \<Longrightarrow> \<exists>s1. st' \<in> set (ms r2 s1)"
  by auto

lemma compilerErrorRegex_line:
  assumes "(m, caps) \<in> set (rx_match_all compilerErrorRegex out)"
  shows "\<exists>ds. ds \<noteq> [] \<and> (\<forall>c \<in> set ds. isDigit c) \<and> cap caps 2 = ds"
proof -
  from rx_match_all_by_ms [OF assms] obtain p q p' q' where
    h: "(p', q', caps) \<in> set (ms compilerErrorRegex (p, q, []))" by blast
  show ?thesis
    using h unfolding compilerErrorRegex_def
    apply -
    apply (drule ms_Seq_tail, erule exE)
    apply (drule ms_Seq_tail, erule exE)
    apply (drule ms_Seq_Grp_digits)
     apply (simp add: Plus_def)
    apply simp
    done
qed

lemma clangTidyRegex_line:
  assumes "(m, caps) \<in> set (rx_match_all clangTidyRegex out)"
  shows "\<exists>ds. ds \<noteq> [] \<and> (\<forall>c \<in> set ds. isDigit c) \<and> cap caps 2 = ds"
proof -
  from rx_match_all_by_ms [OF assms] obtain p q p' q' where
    h: "(p', q', caps) \<in> set (ms clangTidyRegex (p, q, []))" by blast
  show ?thesis
    using h unfolding clangTidyRegex_def
    apply -
    apply (drule ms_Seq_tail, erule exE)
    apply (drule ms_Seq_tail, erule exE)
    apply (drule ms_Seq_Grp_digits)
     apply (simp add: Plus_def PlusL_def)
    apply simp
    done
qed

lemma cppcheckRegex_line:
  assumes "(m, caps) \<in> set (rx_match_all cppcheckRegex out)"
  shows "\<exists>ds. ds \<noteq> [] \<and> (\<forall>c \<in> set ds. isDigit c) \<and> cap caps 2 = ds"
proof -
  from rx_match_all_by_ms [OF assms] obtain p q p' q' where
    h: "(p', q', caps) \<in> set (ms cppcheckRegex (p, q, []))" by blast
  show ?thesis
    using h unfolding cppcheckRegex_def
    apply -
    apply (drule ms_Seq_tail, erule exE)
    apply (drule ms_Seq_tail, erule exE)
    apply (drule ms_Seq_tail, erule exE)
    apply (drule ms_Seq_Grp_digits)
     apply (simp add: Plus_def)
    apply simp
    done
qed

lemma foldl_inv:
  "(\<And>t m. m \<in> set xs \<Longrightarrow> I t \<Longrightarrow> I (f t m)) \<Longrightarrow> I t \<Longrightarrow> I (foldl f t xs)"
  by (induction xs arbitrary: t) auto

lemma listsOk_pushIssue:
  "listsOk this \<Longrightarrow> issueOk (if b then ''error'' else ''warning'') x \<Longrightarrow>
   listsOk (pushIssue b x this)"
  by (auto simp: listsOk_def pushIssue_def)

lemma listsOk_compilerMatch:
  assumes "listsOk this" "m \<in> set (rx_match_all compilerErrorRegex out)"
  shows "listsOk (compilerMatch fs files this m)"
proof -
  from compilerErrorRegex_line [of "fst m" "snd m" out] assms(2)
  obtain ds where "ds \<noteq> []" "\<forall>c \<in> set ds. isDigit c" "cap (snd m) 2 = ds" by auto
  with parseInt_digits [of ds] obtain n where "parseInt (cap (snd m) 2) = Num n" "0 \<le> n"
    by auto
  then show ?thesis
    unfolding compilerMatch_def Let_def
    by (intro listsOk_pushIssue [OF assms(1)]) (simp add: issueOk_def)
qed

lemma listsOk_cppcheckMatch:
  assumes "listsOk this" "m \<in> set (rx_match_all cppcheckRegex out)"
  shows "listsOk (cppcheckMatch fs files this m)"
proof -
  from cppcheckRegex_line [of "fst m" "snd m" out] assms(2)
  obtain ds where "ds \<noteq> []" "\<forall>c \<in> set ds. isDigit c" "cap (snd m) 2 = ds" by auto
  with parseInt_digits [of ds] obtain n where "parseInt (cap (snd m) 2) = Num n" "0 \<le> n"
    by auto
  then show ?thesis
    unfolding cppcheckMatch_def Let_def
    by (intro listsOk_pushIssue [OF assms(1)]) (simp add: issueOk_def)
qed

lemma listsOk_clangTidyMatch:
  assumes "listsOk this" "m \<in> set (rx_match_all clangTidyRegex out)"
  shows "listsOk (clangTidyMatch fs files this m)"
proof -
  from clangTidyRegex_line [of "fst m" "snd m" out] assms(2)
  obtain ds where "ds \<noteq> []" "\<forall>c \<in> set ds. isDigit c" "cap (snd m) 2 = ds" by auto
  with parseInt_digits [of ds] obtain n where "parseInt (cap (snd m) 2) = Num n" "0 \<le> n"
    by auto
  then show ?thesis
    unfolding clangTidyMatch_def Let_def
    by (intro listsOk_pushIssue [OF assms(1)]) (simp add: issueOk_def)
qed

lemma listsOk_parseCompilerErrors:
  assumes "listsOk this"
  shows "listsOk (parseCompilerErrors fs output files this)"
proof -
  have 1: "listsOk (foldl (compilerMatch fs files) this (rx_match_all compilerErrorRegex output))"
    by (rule foldl_inv [where I = listsOk, OF listsOk_compilerMatch assms])
  then show ?thesis
    by (auto simp: parseCompilerErrors_def Let_def listsOk_def genericCompilerError_def issueOk_def)
qed

lemma listsOk_parseCppcheckOutput:
  assumes "listsOk this"
  shows "listsOk (parseCppcheckOutput fs output files this)"
  unfolding parseCppcheckOutput_def
  by (rule foldl_inv [where I = listsOk, OF listsOk_cppcheckMatch assms])

lemma listsOk_parseClangTidyOutput:
  assumes "listsOk this"
  shows "listsOk (parseClangTidyOutput fs output files this)"
  unfolding parseClangTidyOutput_def
  by (rule foldl_inv [where I = listsOk, OF listsOk_clangTidyMatch assms])

lemma listsOk_checkSyntax:
  assumes "listsOk this"
  shows "listsOk (checkSyntax fs files this)"
  using assms
  by (auto simp: listsOk_def checkSyntax_def checkSyntaxFile_def checkSyntaxLine_def issueOk_def
      split: option.splits)

lemma listsOk_checkCodeQuality:
  assumes "listsOk this"
  shows "listsOk (checkCodeQuality fs files this)"
  using assms
  by (auto simp: listsOk_def checkCodeQuality_def checkQualityFile_def checkQualityLine_def
      issueOk_def Let_def split: option.splits if_splits)

lemma listsOk_checkCompilation:
  assumes "listsOk (fst st)"
  shows "listsOk (fst (checkCompilation h codeDir files st))"
  using assms by (simp add: checkCompilation_def Let_def listsOk_parseCompilerErrors)

lemma listsOk_runCppcheck:
  assumes "listsOk (fst st)"
  shows "listsOk (fst (runCppcheck h files st))"
  using assms by (simp add: runCppcheck_def Let_def listsOk_parseCppcheckOutput)

lemma listsOk_runClangTidy:
  assumes "listsOk (fst st)"
  shows "listsOk (fst (runClangTidy h files st))"
  using assms by (simp add: runClangTidy_def Let_def listsOk_parseClangTidyOutput)

lemma listsOk_runStaticAnalysis:
  assumes "listsOk (fst st)"
  shows "listsOk (fst (runStaticAnalysis h files st))"
  unfolding runStaticAnalysis_def
  by (intro listsOk_runClangTidy listsOk_runCppcheck assms)

lemma listsOk_runPasses:
  assumes "listsOk this"
  shows "listsOk (fst (snd (runPasses h codeDir files this fs)))"
proof -
  define codeFiles where "codeFiles = map (pjoin h codeDir) files"
  define this1 where "this1 = checkSyntax fs codeFiles this"
  define st2 where "st2 = (if useCompiler (options this1)
                 then checkCompilation h codeDir codeFiles (this1, fs) else (this1, fs))"
  define st3 where "st3 = (if useStaticAnalysis (options (fst st2))
                 then runStaticAnalysis h codeFiles st2 else st2)"
  have 1: "listsOk this1" unfolding this1_def by (rule listsOk_checkSyntax [OF assms])
  have 2: "listsOk (fst st2)" unfolding st2_def using 1 by (simp add: listsOk_checkCompilation)
  have 3: "listsOk (fst st3)" unfolding st3_def using 2 by (simp add: listsOk_runStaticAnalysis)
  have "fst (snd (runPasses h codeDir files this fs)) = checkCodeQuality (snd st3) codeFiles (fst st3)"
    by (simp add: runPasses_def Let_def codeFiles_def this1_def st2_def st3_def)
  with 3 show ?thesis by (simp add: listsOk_checkCodeQuality)
qed

lemma runPasses_result:
  "r_errors (fst (runPasses h codeDir files this fs))
     = errors (fst (snd (runPasses h codeDir files this fs))) \<and>
   r_warnings (fst (runPasses h codeDir files this fs))
     = warnings (fst (snd (runPasses h codeDir files this fs)))"
  by (simp add: runPasses_def Let_def)

text \<open>
  C8.  Each of the four passes keeps the lists well formed (every Issue in
  \<open>errors\<close> has severity error, every Issue in \<open>warnings\<close> has severity warning, every
  line is a number not below zero), and so the lists \<^verbatim>\<open>analyzeCode\<close> returns are
  well formed: the severity of an Issue is error or warning and tells its list.
\<close>

theorem analyzeCode_issues_well_formed:
  "(listsOk this \<longrightarrow>
      listsOk (checkSyntax fs files this) \<and>
      listsOk (fst (checkCompilation h codeDir files (this, fs))) \<and>
      listsOk (fst (runStaticAnalysis h files (this, fs))) \<and>
      listsOk (checkCodeQuality fs files this)) \<and>
   (analyzeCode h this0 codeDir fileList fs = Some (res, this', fs') \<longrightarrow>
      (\<forall>x \<in> set (r_errors res). severity x = ''error'' \<and> (\<exists>n. line x = Num n \<and> 0 \<le> n)) \<and>
      (\<forall>x \<in> set (r_warnings res). severity x = ''warning'' \<and> (\<exists>n. line x = Num n \<and> 0 \<le> n)))"
proof -
  have passes: "listsOk (checkSyntax fs files this) \<and>
      listsOk (fst (checkCompilation h codeDir files (this, fs))) \<and>
      listsOk (fst (runStaticAnalysis h files (this, fs))) \<and>
      listsOk (checkCodeQuality fs files this)" if "listsOk this"
    using that
    by (simp add: listsOk_checkSyntax listsOk_checkCompilation listsOk_runStaticAnalysis
        listsOk_checkCodeQuality)
  have whole: "(\<forall>x \<in> set (r_errors res). issueOk ''error'' x) \<and>
               (\<forall>x \<in> set (r_warnings res). issueOk ''warning'' x)"
    if run: "analyzeCode h this0 codeDir fileList fs = Some (res, this', fs')"
  proof -
    have start: "listsOk (this0\<lparr>errors := [], warnings := [], fixes := []\<rparr>)"
      by (simp add: listsOk_def)
    from run obtain fl where rp: "runPasses h codeDir fl
        (this0\<lparr>errors := [], warnings := [], fixes := []\<rparr>) fs = (res, this', fs')"
      by (auto simp: analyzeCode_def Let_def split: option.splits)
    from listsOk_runPasses [OF start, of h codeDir fl fs] rp have "listsOk this'" by simp
    moreover from runPasses_result [of h codeDir fl
        "this0\<lparr>errors := [], warnings := [], fixes := []\<rparr>" fs] rp
    have "r_errors res = errors this'" "r_warnings res = warnings this'" by simp_all
    ultimately show ?thesis by (simp add: listsOk_def)
  qed
  from passes whole show ?thesis unfolding issueOk_def by blast
qed

lemma tools_run:
  "map_option (\<lambda>r. (map (\<lambda>x. (type x, severity x, line x)) (r_errors (fst r)),
                     map (\<lambda>x. (type x, severity x, line x)) (r_warnings (fst r))))
     (analyzeCode tools_host fresh_instance ''proj'' (Some [''a.c'']) fs_scenario_A)
   = Some ([(''syntax'', ''error'', Num 1), (''compilation'', ''error'', Num 1)],
           [(''compilation'', ''warning'', Num 2), (''static_analysis'', ''warning'', Num 10),
            (''static_analysis'', ''warning'', Num 3)])"
  by code_simp

theorem analyzeCode_issues_well_formed_witness:
  "listsOk fresh_instance \<and>
   listsOk (checkSyntax fs_scenario_A [''proj/a.c''] fresh_instance) \<and>
   errors (checkSyntax fs_scenario_A [''proj/a.c''] fresh_instance) = [issue_scenario_A] \<and>
   analyzeCode tools_host fresh_instance ''proj'' (Some [''a.c'']) fs_scenario_A \<noteq> None \<and>
   list_all (\<lambda>x. severity x = ''error'' \<and> (\<exists>n. line x = Num n \<and> 0 \<le> n))
     (r_errors (fst (the (analyzeCode tools_host fresh_instance ''proj''
                            (Some [''a.c'']) fs_scenario_A)))) \<and>
   map_option (\<lambda>r. (map (\<lambda>x. (type x, severity x, line x)) (r_errors (fst r)),
                     map (\<lambda>x. (type x, severity x, line x)) (r_warnings (fst r))))
     (analyzeCode tools_host fresh_instance ''proj'' (Some [''a.c'']) fs_scenario_A)
   = Some ([(''syntax'', ''error'', Num 1), (''compilation'', ''error'', Num 1)],
           [(''compilation'', ''warning'', Num 2), (''static_analysis'', ''warning'', Num 10),
            (''static_analysis'', ''warning'', Num 3)])"
proof -
  obtain res this' fs' where run:
    "analyzeCode tools_host fresh_instance ''proj'' (Some [''a.c'']) fs_scenario_A
       = Some (res, this', fs')"
    by (simp add: analyzeCode_def) (metis prod_cases3)
  note wf = analyzeCode_issues_well_formed [of fresh_instance fs_scenario_A "[''proj/a.c'']"
      tools_host "''proj''" fresh_instance "Some [''a.c'']" res this' fs']
  have ok0: "listsOk fresh_instance"
    by (simp add: listsOk_def fresh_instance_def)
  from wf ok0 have ok1: "listsOk (checkSyntax fs_scenario_A [''proj/a.c''] fresh_instance)"
    by blast
  have er: "errors (checkSyntax fs_scenario_A [''proj/a.c''] fresh_instance) = [issue_scenario_A]"
    by (simp add: checkSyntax_def scenario_A_file fresh_instance_def)
  from wf run
  have "\<forall>x \<in> set (r_errors res). severity x = ''error'' \<and> (\<exists>n. line x = Num n \<and> 0 \<le> n)"
    by blast
  then have "list_all (\<lambda>x. severity x = ''error'' \<and> (\<exists>n. line x = Num n \<and> 0 \<le> n))
               (r_errors res)"
    by (simp add: list_all_iff)
  with run tools_run ok0 ok1 er show ?thesis by simp
qed

section \<open>The first match of some shapes of regular expression\<close>

lemma ms_lit:
  "ms (lit w) (pre, rest, caps) =
     (if take (length w) rest = w then [(rev w @ pre, drop (length w) rest, caps)] else [])"
proof (induction w arbitrary: pre rest)
  case Nil
  then show ?case by simp
next
  case (Cons c w)
  show ?case
  proof (cases rest)
    case Nil
    then show ?thesis by simp
  next
    case (Cons d ds)
    with Cons.IH [of "d # pre" ds] show ?thesis by auto
  qed
qed

lemma ms_Seq_head:
  "ms r1 st = s1 # t1 \<Longrightarrow> ms r2 s1 = s2 # t2 \<Longrightarrow> \<exists>t. ms (Seq r1 r2) st = s2 # t"
  by simp

lemma ms_Seq_none: "ms r1 st = [] \<Longrightarrow> ms (Seq r1 r2) st = []"
  by simp

text \<open>A greedy star over a class first takes the longest run of the class.\<close>

lemma ms_Star_Cls_head:
  "\<exists>t. ms (Star (Cls P)) (pre, s, caps) = (rev (takeWhile P s) @ pre, dropWhile P s, caps) # t"
proof (induction s arbitrary: pre)
  case Nil
  then show ?case by simp
next
  case (Cons c cs)
  show ?case
  proof (cases "P c")
    case False
    then show ?thesis by simp
  next
    case True
    from Cons [of "c # pre"] obtain t where
      "ms (Star (Cls P)) (c # pre, cs, caps)
         = (rev (takeWhile P cs) @ c # pre, dropWhile P cs, caps) # t" by blast
    with True show ?thesis by simp
  qed
qed







section \<open>Numeric prefixes\<close>






section \<open>Fence markers\<close>

lemma startsWith_append:
  "length p \<le> length s \<Longrightarrow> startsWith (s @ t) p = startsWith s p"
  by (simp add: startsWith_def)

lemma startsWith_marker: "startsWith s ''```'' = (\<exists>x. s = ''```'' @ x)"
proof
  assume "startsWith s ''```''"
  then have t: "take (length ''```'') s = ''```''" unfolding startsWith_def .
  have "s = take (length ''```'') s @ drop (length ''```'') s"
    by (simp only: append_take_drop_id)
  with t have "s = ''```'' @ drop (length ''```'') s" by (simp only:)
  then show "\<exists>x. s = ''```'' @ x" ..
next
  assume "\<exists>x. s = ''```'' @ x"
  then show "startsWith s ''```''" by (auto simp: startsWith_def)
qed

lemma splitMarker_here: "splitMarker (''```'' @ x) = Some ([], x)"
  by (simp add: startsWith_def)

lemma splitMarker_eq:
  "splitMarker s = Some (before, rest) \<Longrightarrow> s = before @ ''```'' @ rest"
proof (induction s arbitrary: before)
  case Nil
  then show ?case by simp
next
  case (Cons c cs)
  show ?case
  proof (cases "startsWith (c # cs) ''```''")
    case True
    then obtain x where x: "c # cs = ''```'' @ x" unfolding startsWith_marker by blast
    with Cons.prems True show ?thesis by simp
  next
    case False
    with Cons.prems obtain b where "splitMarker cs = Some (b, rest)" "before = c # b"
      by (auto split: option.splits)
    with Cons.IH [of b] show ?thesis by simp
  qed
qed

lemma splitMarker_append: "splitMarker (u @ ''```'' @ v) \<noteq> None"
proof (induction u)
  case Nil
  then show ?case by (simp add: startsWith_def)
next
  case (Cons c u)
  then show ?case by (auto split: option.splits)
qed

lemma splitMarker_None_iff: "(splitMarker s = None) = (\<forall>u v. s \<noteq> u @ ''```'' @ v)"
proof
  assume "splitMarker s = None"
  then show "\<forall>u v. s \<noteq> u @ ''```'' @ v" using splitMarker_append by metis
next
  assume a: "\<forall>u v. s \<noteq> u @ ''```'' @ v"
  show "splitMarker s = None"
  proof (rule ccontr)
    assume "splitMarker s \<noteq> None"
    then obtain b r where "splitMarker s = Some (b, r)" by auto
    from splitMarker_eq [OF this] a show False by blast
  qed
qed

lemma splitMarker_Cons_None:
  "splitMarker (c # cs) = None \<Longrightarrow> \<not> startsWith (c # cs) ''```'' \<and> splitMarker cs = None"
  by (auto split: if_splits option.splits)

lemma splitMarker_Cons_later:
  "splitMarker (c # cs) = Some (before, rest) \<Longrightarrow> \<not> startsWith (c # cs) ''```'' \<Longrightarrow>
   \<exists>b. before = c # b \<and> splitMarker cs = Some (b, rest)"
  by (auto split: if_splits option.splits)

lemma splitMarker_drop: "splitMarker s = None \<Longrightarrow> splitMarker (drop n s) = None"
proof -
  assume a: "splitMarker s = None"
  show ?thesis
    unfolding splitMarker_None_iff
  proof (intro allI notI)
    fix u v
    assume "drop n s = u @ ''```'' @ v"
    with append_take_drop_id [of n s] have "s = (take n s @ u) @ ''```'' @ v" by simp
    with a show False unfolding splitMarker_None_iff by blast
  qed
qed

lemma splitMarker_take: "splitMarker s = None \<Longrightarrow> splitMarker (take n s) = None"
proof -
  assume a: "splitMarker s = None"
  show ?thesis
    unfolding splitMarker_None_iff
  proof (intro allI notI)
    fix u v
    assume "take n s = u @ ''```'' @ v"
    with append_take_drop_id [of n s] have "s = u @ ''```'' @ (v @ drop n s)" by simp
    with a show False unfolding splitMarker_None_iff by blast
  qed
qed

lemma splitMarker_dropWhile: "splitMarker s = None \<Longrightarrow> splitMarker (dropWhile P s) = None"
  using splitMarker_drop [of s "length (takeWhile P s)"] by (simp add: dropWhile_eq_drop)

lemma trim_as_take_drop:
  "trim s = take (length (dropWhile isSpace s) - length (takeWhile isSpace (rev (dropWhile isSpace s))))
              (dropWhile isSpace s)"
  by (simp add: trim_def dropWhile_eq_drop drop_rev)

lemma splitMarker_trim: "splitMarker s = None \<Longrightarrow> splitMarker (trim s) = None"
  unfolding trim_as_take_drop by (intro splitMarker_take splitMarker_dropWhile)

text \<open>The text before the first marker is closed by it, and holds no marker.\<close>

lemma splitMarker_closed:
  "splitMarker s = Some (before, rest) \<Longrightarrow> splitMarker (before @ ''```'') = Some (before, [])"
proof (induction s arbitrary: before)
  case Nil
  then show ?case by simp
next
  case (Cons c cs)
  show ?case
  proof (cases "startsWith (c # cs) ''```''")
    case True
    with Cons.prems have "before = []" by simp
    then show ?thesis by (simp add: startsWith_def)
  next
    case False
    from splitMarker_Cons_later [OF Cons.prems False] obtain b where
      b: "before = c # b" "splitMarker cs = Some (b, rest)" by blast
    from splitMarker_eq [OF b(2)] have cs: "cs = b @ ''```'' @ rest" .
    have "startsWith ((c # b @ ''```'') @ rest) ''```'' = startsWith (c # b @ ''```'') ''```''"
      by (rule startsWith_append) simp
    with False have "\<not> startsWith (c # b @ ''```'') ''```''"
      by (simp add: cs)
    with Cons.IH [OF b(2)] b(1) show ?thesis by simp
  qed
qed

lemma splitMarker_closed_drop:
  "splitMarker (inner @ ''```'') = Some (inner, []) \<Longrightarrow>
   splitMarker (drop n inner @ ''```'') = Some (drop n inner, [])"
proof (induction inner arbitrary: n)
  case Nil
  then show ?case by simp
next
  case (Cons c inner)
  show ?case
  proof (cases n)
    case 0
    with Cons.prems show ?thesis by simp
  next
    case (Suc k)
    have ns: "\<not> startsWith ((c # inner) @ ''```'') ''```''"
      using Cons.prems by (auto split: if_splits)
    from Cons.prems ns have "splitMarker (inner @ ''```'') = Some (inner, [])"
      by (auto split: option.splits)
    from Cons.IH [OF this, of k] Suc show ?thesis by simp
  qed
qed

lemma splitMarker_closed_None:
  "splitMarker (inner @ ''```'') = Some (inner, []) \<Longrightarrow> splitMarker inner = None"
proof -
  assume a: "splitMarker (inner @ ''```'') = Some (inner, [])"
  show ?thesis
  proof (rule ccontr)
    assume "splitMarker inner \<noteq> None"
    then obtain b r where br: "splitMarker inner = Some (b, r)" by auto
    from splitMarker_eq [OF this] have i: "inner = b @ ''```'' @ r" .
    have "splitMarker (inner @ ''```'') = Some (b, r @ ''```'')"
      using br
    proof (induction inner arbitrary: b)
      case Nil
      then show ?case by simp
    next
      case (Cons c inner)
      show ?case
      proof (cases "startsWith (c # inner) ''```''")
        case True
        then obtain x where x: "c # inner = ''```'' @ x" unfolding startsWith_marker by blast
        have "splitMarker ((c # inner) @ ''```'') = Some ([], x @ ''```'')"
          unfolding x using splitMarker_here [of "x @ ''```''"] by simp
        moreover from Cons.prems have "b = []" "r = x"
          unfolding x using splitMarker_here [of x] by simp_all
        ultimately show ?thesis by simp
      next
        case False
        from splitMarker_Cons_later [OF Cons.prems False] obtain b' where
          b': "b = c # b'" "splitMarker inner = Some (b', r)" by blast
        from splitMarker_eq [OF b'(2)] have "inner = b' @ ''```'' @ r" .
        then have "length ''```'' \<le> length (c # inner)" by simp
        from startsWith_append [OF this, of "''```''"] False
        have "\<not> startsWith ((c # inner) @ ''```'') ''```''" by simp
        with Cons.IH [OF b'(2)] b'(1) show ?thesis by simp
      qed
    qed
    with a i show False by simp
  qed
qed

lemma fenceInners_closed:
  "inner \<in> set (fenceInners t) \<Longrightarrow> splitMarker (inner @ ''```'') = Some (inner, [])"
proof (induction t rule: fenceInners.induct)
  case (1 t)
  show ?case
  proof (cases "splitMarker t")
    case None
    with "1.prems" show ?thesis by (simp add: fenceInners.simps [of t])
  next
    case (Some p)
    obtain before opened where p: "p = (before, opened)" by (cases p) auto
    show ?thesis
    proof (cases "splitMarker opened")
      case None
      with "1.prems" Some p show ?thesis by (simp add: fenceInners.simps [of t])
    next
      case (Some q)
      obtain i rest where q: "q = (i, rest)" by (cases q) auto
      from "1.prems" \<open>splitMarker t = Some p\<close> p Some q
      have "inner = i \<or> inner \<in> set (fenceInners rest)"
        by (simp add: fenceInners.simps [of t])
      then show ?thesis
      proof
        assume "inner = i"
        with splitMarker_closed [of opened i rest] Some q show ?thesis by simp
      next
        assume "inner \<in> set (fenceInners rest)"
        from "1.IH" [OF \<open>splitMarker t = Some p\<close> p [symmetric] Some q [symmetric] this]
        show ?thesis .
      qed
    qed
  qed
qed

section \<open>Scanning for fences\<close>

lemma needsMarker_Seq_lit: "needsMarker (Seq (lit ''```'') r)"
  unfolding needsMarker_def
proof (intro allI impI)
  fix pre rest caps
  assume "\<not> startsWith rest ''```''"
  then have "ms (lit ''```'') (pre, rest, caps) = []"
    unfolding ms_lit startsWith_def by simp
  then show "ms (Seq (lit ''```'') r) (pre, rest, caps) = []"
    by (rule ms_Seq_none)
qed

lemma needsMarker_fenceRegex: "needsMarker fenceRegex"
  unfolding fenceRegex_def by (rule needsMarker_Seq_lit)

lemma needsMarker_fenceOpenRegex: "needsMarker fenceOpenRegex"
  unfolding fenceOpenRegex_def by (rule needsMarker_Seq_lit)

lemma needsMarker_fenceMarkRegex: "needsMarker fenceMarkRegex"
  unfolding needsMarker_def fenceMarkRegex_def ms_lit startsWith_def by simp

lemma needsMarkerD:
  "needsMarker r \<Longrightarrow> \<not> startsWith rest ''```'' \<Longrightarrow> ms r (pre, rest, caps) = []"
  unfolding needsMarker_def by blast

lemma rx_search_no_marker:
  assumes "needsMarker r"
  shows "splitMarker s = None \<Longrightarrow> rx_search r pre s = None"
proof (induction s arbitrary: pre)
  case Nil
  have "\<not> startsWith [] ''```''" by (simp add: startsWith_def)
  from needsMarkerD [OF assms this] show ?case by simp
next
  case (Cons c cs)
  from splitMarker_Cons_None [OF Cons.prems]
  have ns: "\<not> startsWith (c # cs) ''```''" and n: "splitMarker cs = None" by simp_all
  from needsMarkerD [OF assms ns] Cons.IH [OF n] show ?case by simp
qed

lemma rx_search_at_marker:
  assumes "needsMarker r"
  shows "splitMarker s = Some (b, x) \<Longrightarrow> ms r (rev b @ pre, ''```'' @ x, []) = st # t \<Longrightarrow>
         rx_search r pre s = Some (b, st)"
proof (induction s arbitrary: pre b)
  case Nil
  then show ?case by simp
next
  case (Cons c cs)
  show ?case
  proof (cases "startsWith (c # cs) ''```''")
    case True
    with Cons.prems(1) have b: "b = []" by simp
    from splitMarker_eq [OF Cons.prems(1)] b have "c # cs = ''```'' @ x" by simp
    with Cons.prems(2) b have "ms r (pre, c # cs, []) = st # t" by simp
    with b show ?thesis by simp
  next
    case False
    from splitMarker_Cons_later [OF Cons.prems(1) False] obtain b' where
      b': "b = c # b'" "splitMarker cs = Some (b', x)" by blast
    from Cons.prems(2) b' have "ms r (rev b' @ c # pre, ''```'' @ x, []) = st # t" by simp
    from Cons.IH [OF b'(2) this] needsMarkerD [OF assms False] b'(1)
    show ?thesis by simp
  qed
qed

lemma rx_scan_found:
  "rx_search r pre s = Some (g, (rev m @ rev g @ pre, s', caps)) \<Longrightarrow> m \<noteq> [] \<Longrightarrow>
   rx_scan r pre s = Plain g # Matched m caps # rx_scan r (rev m @ rev g @ pre) s'"
  by (simp add: rx_scan.simps [of r pre s])

lemma rx_scan_no_marker:
  assumes "needsMarker r" "splitMarker s = None"
  shows "rx_scan r pre s = [Plain s]"
  using rx_search_no_marker [OF assms, of pre] by (simp add: rx_scan.simps)

lemma rx_replace_all_no_marker:
  assumes "needsMarker r" "splitMarker s = None"
  shows "rx_replace_all r s repl = s"
  by (simp add: rx_replace_all_def rx_scan_no_marker [OF assms])

text \<open>The fence pattern at a marker: up to the next marker, if there is one.\<close>

lemma ms_lazy_marker_none:
  "splitMarker x = None \<Longrightarrow>
   ms (Seq (StarL (Cls (\<lambda>c. isSpace c \<or> \<not> isSpace c))) (lit ''```'')) (pre, x, caps) = []"
proof (induction x arbitrary: pre)
  case Nil
  then show ?case by (simp add: ms_lit del: lit.simps)
next
  case (Cons c cs)
  from splitMarker_Cons_None [OF Cons.prems]
  have ns: "\<not> startsWith (c # cs) ''```''" and n: "splitMarker cs = None" by simp_all
  from ns have "ms (lit ''```'') (pre, c # cs, caps) = []"
    unfolding ms_lit startsWith_def by simp
  with Cons.IH [OF n, of "c # pre"] show ?case by (simp del: lit.simps)
qed

lemma ms_lazy_marker_some:
  "splitMarker x = Some (i, r') \<Longrightarrow>
   \<exists>t. ms (Seq (StarL (Cls (\<lambda>c. isSpace c \<or> \<not> isSpace c))) (lit ''```'')) (pre, x, caps)
        = (rev ''```'' @ rev i @ pre, r', caps) # t"
proof (induction x arbitrary: pre i)
  case Nil
  then show ?case by simp
next
  case (Cons c cs)
  show ?case
  proof (cases "startsWith (c # cs) ''```''")
    case True
    with Cons.prems have i: "i = []" by simp
    from splitMarker_eq [OF Cons.prems] i have x: "c # cs = ''```'' @ r'" by simp
    have "ms (lit ''```'') (pre, c # cs, caps) = [(rev ''```'' @ pre, r', caps)]"
      unfolding ms_lit x by simp
    with i show ?thesis by (simp del: lit.simps)
  next
    case False
    from splitMarker_Cons_later [OF Cons.prems False] obtain i' where
      i': "i = c # i'" "splitMarker cs = Some (i', r')" by blast
    from False have "ms (lit ''```'') (pre, c # cs, caps) = []"
      unfolding ms_lit startsWith_def by simp
    with Cons.IH [OF i'(2), of "c # pre"] i'(1) show ?thesis by (simp del: lit.simps)
  qed
qed

lemma ms_fence_marker:
  "ms fenceRegex (pre, ''```'' @ x, caps)
     = ms (Seq (StarL (Cls (\<lambda>c. isSpace c \<or> \<not> isSpace c))) (lit ''```''))
          (rev ''```'' @ pre, x, caps)"
proof -
  have "ms (lit ''```'') (pre, ''```'' @ x, caps) = [(rev ''```'' @ pre, x, caps)]"
    unfolding ms_lit by simp
  then show ?thesis unfolding fenceRegex_def by (simp del: lit.simps ms.simps(6) add: ms.simps(3))
qed

lemma ms_fence_unclosed: "splitMarker x = None \<Longrightarrow> ms fenceRegex (pre, ''```'' @ x, caps) = []"
  unfolding ms_fence_marker by (rule ms_lazy_marker_none)

lemma ms_fence_closed:
  "splitMarker x = Some (i, r') \<Longrightarrow>
   \<exists>t. ms fenceRegex (pre, ''```'' @ x, caps) = (rev (''```'' @ i @ ''```'') @ pre, r', caps) # t"
  unfolding ms_fence_marker using ms_lazy_marker_some [of x i r' "rev ''```'' @ pre" caps] by simp

text \<open>A marker that is never closed: the fence pattern matches nowhere.\<close>

lemma rx_search_fence_unclosed:
  "splitMarker s = Some (b, x) \<Longrightarrow> splitMarker x = None \<Longrightarrow> rx_search fenceRegex pre s = None"
proof (induction s arbitrary: pre b x)
  case Nil
  then show ?case by simp
next
  case (Cons c cs)
  show ?case
  proof (cases "startsWith (c # cs) ''```''")
    case True
    with Cons.prems(1) have b: "b = []" by simp
    from splitMarker_eq [OF Cons.prems(1)] b have eq: "c # cs = ''```'' @ x" by simp
    then have cs: "cs = ''``'' @ x" by simp
    from ms_fence_unclosed [OF Cons.prems(2), of pre "[]"] eq
    have here: "ms fenceRegex (pre, c # cs, []) = []" by simp
    have "rx_search fenceRegex (c # pre) cs = None"
    proof (cases "splitMarker cs")
      case None
      then show ?thesis by (rule rx_search_no_marker [OF needsMarker_fenceRegex])
    next
      case (Some p)
      obtain b2 x2 where p: "p = (b2, x2)" by (cases p) auto
      from splitMarker_eq [of cs b2 x2] Some p have "cs = b2 @ ''```'' @ x2" by simp
      with cs have "''``'' @ x = b2 @ ''```'' @ x2" by simp
      then have "drop (length b2 + 3) (''``'' @ x) = x2" by simp
      moreover have "drop (length b2 + 3) (''``'' @ x) = drop (length b2 + 1) x"
        by (simp add: numeral_3_eq_3)
      ultimately have "x2 = drop (length b2 + 1) x" by simp
      with splitMarker_drop [OF Cons.prems(2), of "length b2 + 1"]
      have "splitMarker x2 = None" by simp
      from Cons.IH [of b2 x2 "c # pre"] Some p this show ?thesis by simp
    qed
    with here show ?thesis by simp
  next
    case False
    from splitMarker_Cons_later [OF Cons.prems(1) False] obtain b' where
      b': "b = c # b'" "splitMarker cs = Some (b', x)" by blast
    from Cons.IH [OF b'(2) Cons.prems(2), of "c # pre"]
      needsMarkerD [OF needsMarker_fenceRegex False]
    show ?thesis by simp
  qed
qed

text \<open>The scan for fences finds the fenced blocks, one match each.\<close>

lemma rx_scan_fences:
  "matchesOf (rx_scan fenceRegex pre t)
     = map (\<lambda>inner. (''```'' @ inner @ ''```'', [])) (fenceInners t)"
proof (induction t arbitrary: pre rule: fenceInners.induct)
  case (1 t)
  show ?case
  proof (cases "splitMarker t")
    case None
    then show ?thesis
      by (simp add: rx_scan_no_marker [OF needsMarker_fenceRegex] matchesOf_def
          fenceInners.simps [of t])
  next
    case (Some p)
    obtain before opened where p: "p = (before, opened)" by (cases p) auto
    note t = Some [unfolded p]
    show ?thesis
    proof (cases "splitMarker opened")
      case None
      from rx_search_fence_unclosed [OF t None, of pre] show ?thesis
        by (simp add: rx_scan.simps [of fenceRegex pre t] matchesOf_def
            fenceInners.simps [of t] t None)
    next
      case (Some q)
      obtain i rest where q: "q = (i, rest)" by (cases q) auto
      note o = Some [unfolded q]
      from ms_fence_closed [OF o, of "rev before @ pre" "[]"] obtain tl where
        h: "ms fenceRegex (rev before @ pre, ''```'' @ opened, [])
              = (rev (''```'' @ i @ ''```'') @ rev before @ pre, rest, []) # tl" by blast
      from rx_search_at_marker [OF needsMarker_fenceRegex t h]
      have "rx_search fenceRegex pre t
              = Some (before, (rev (''```'' @ i @ ''```'') @ rev before @ pre, rest, []))" .
      from rx_scan_found [OF this]
      have scan: "rx_scan fenceRegex pre t
          = Plain before # Matched (''```'' @ i @ ''```'') []
            # rx_scan fenceRegex (rev (''```'' @ i @ ''```'') @ rev before @ pre) rest"
        by simp
      from "1.IH" [OF \<open>splitMarker t = Some p\<close> p [symmetric] Some q [symmetric],
          of "rev (''```'' @ i @ ''```'') @ rev before @ pre"]
      show ?thesis
        unfolding scan by (simp add: matchesOf_def fenceInners.simps [of t] t o)
    qed
  qed
qed

lemma rx_match_all_fences:
  "map fst (rx_match_all fenceRegex t) = map (\<lambda>inner. ''```'' @ inner @ ''```'') (fenceInners t)"
  using rx_scan_fences [of "[]" t]
  by (simp add: rx_match_all_def matchesOf_def comp_def)

text \<open>What is left of a matched block: the text between its markers without the tag, trimmed.\<close>

lemma ms_fenceOpen_head:
  assumes "list_all isWord tag" "s = [] \<or> \<not> isWord (hd s)"
  shows "\<exists>t. ms fenceOpenRegex (pre, (''```'' @ tag) @ s, [])
              = (rev (''```'' @ tag) @ pre, s, []) # t"
proof -
  have 1: "ms (lit ''```'') (pre, (''```'' @ tag) @ s, []) = [(rev ''```'' @ pre, tag @ s, [])]"
    by (simp add: ms_lit del: lit.simps)
  have tw: "takeWhile isWord (tag @ s) = tag" "dropWhile isWord (tag @ s) = s"
    using assms by (cases s; simp add: list_all_iff takeWhile_append dropWhile_append)+
  from ms_Star_Cls_head [of isWord "rev ''```'' @ pre" "tag @ s" "[]"] tw obtain t where
    2: "ms (Star (Cls isWord)) (rev ''```'' @ pre, tag @ s, [])
          = (rev tag @ rev ''```'' @ pre, s, []) # t" by auto
  from ms_Seq_head [OF 1 2] show ?thesis
    unfolding fenceOpenRegex_def by simp
qed

lemma fenceBody_inner:
  assumes c: "splitMarker (inner @ ''```'') = Some (inner, [])"
  shows "fenceBody (''```'' @ inner @ ''```'') = fenceCode inner"
proof -
  define w where "w = takeWhile isWord inner"
  define d where "d = dropWhile isWord inner"
  have inner: "inner = w @ d" by (simp add: w_def d_def)
  have w: "list_all isWord w"
    unfolding w_def list_all_iff using set_takeWhileD [of _ isWord inner] by blast
  have "d = drop (length w) inner" by (simp add: d_def w_def dropWhile_eq_drop)
  with splitMarker_closed_drop [OF c, of "length w"]
  have cd: "splitMarker (d @ ''```'') = Some (d, [])" by simp
  have nb: "\<not> isWord (CHR 0x60)" by (simp add: isWord_def isAlpha_def isDigit_def)
  have stop: "d @ ''```'' = [] \<or> \<not> isWord (hd (d @ ''```''))"
  proof (cases d)
    case Nil
    with nb show ?thesis by simp
  next
    case (Cons a d')
    then have "dropWhile isWord inner \<noteq> []" by (simp add: d_def)
    from hd_dropWhile [OF this] Cons have "\<not> isWord a" by (simp add: d_def)
    with Cons show ?thesis by simp
  qed
  from ms_fenceOpen_head [OF w stop, of "rev [] @ []"] obtain t1 where
    h1: "ms fenceOpenRegex (rev [] @ [], ''```'' @ inner @ ''```'', [])
           = (rev (''```'' @ w) @ rev [] @ [], d @ ''```'', []) # t1"
    by (auto simp: inner)
  have "splitMarker (''```'' @ inner @ ''```'') = Some ([], inner @ ''```'')"
    by (rule splitMarker_here)
  from rx_search_at_marker [OF needsMarker_fenceOpenRegex this h1]
  have "rx_search fenceOpenRegex [] (''```'' @ inner @ ''```'')
          = Some ([], (rev (''```'' @ w) @ rev [] @ [], d @ ''```'', []))" .
  from rx_scan_found [OF this]
  have s1: "rx_scan fenceOpenRegex [] (''```'' @ inner @ ''```'')
      = Plain [] # Matched (''```'' @ w) []
        # rx_scan fenceOpenRegex (rev (''```'' @ w) @ rev [] @ []) (d @ ''```'')"
    by simp
  define p1 where "p1 = rev (''```'' @ w) @ rev [] @ []"
  from ms_fenceOpen_head [of "[]" "[]" "rev d @ p1"] obtain t2 where
    h2: "ms fenceOpenRegex (rev d @ p1, ''```'' @ [], []) = (rev ''```'' @ rev d @ p1, [], []) # t2"
    by auto
  from rx_search_at_marker [OF needsMarker_fenceOpenRegex cd h2]
  have "rx_search fenceOpenRegex p1 (d @ ''```'') = Some (d, (rev ''```'' @ rev d @ p1, [], []))" .
  from rx_scan_found [OF this]
  have s2: "rx_scan fenceOpenRegex p1 (d @ ''```'')
      = Plain d # Matched ''```'' [] # rx_scan fenceOpenRegex (rev ''```'' @ rev d @ p1) []"
    by simp
  have s3: "rx_scan fenceOpenRegex (rev ''```'' @ rev d @ p1) [] = [Plain []]"
    by (rule rx_scan_no_marker [OF needsMarker_fenceOpenRegex]) simp
  have "rx_replace_all fenceOpenRegex (''```'' @ inner @ ''```'') [] = d"
    unfolding rx_replace_all_def s1 p1_def [symmetric] s2 s3 by simp
  moreover have "rx_replace_all fenceMarkRegex d [] = d"
    by (rule rx_replace_all_no_marker [OF needsMarker_fenceMarkRegex splitMarker_closed_None [OF cd]])
  ultimately show ?thesis by (simp add: fenceBody_def fenceCode_def d_def)
qed

lemma map_fenceBody_fences:
  "map fenceBody (map (\<lambda>inner. ''```'' @ inner @ ''```'') (fenceInners t))
     = map fenceCode (fenceInners t)"
  using fenceBody_inner [OF fenceInners_closed] by (simp add: comp_def)

section \<open>The fence contents hold no fence\<close>

lemma splitMarker_line_feed:
  "splitMarker a = None \<Longrightarrow> splitMarker b = None \<Longrightarrow> splitMarker (a @ CHR 0x0A # b) = None"
proof (induction a)
  case Nil
  then show ?case by (simp add: startsWith_def)
next
  case (Cons c a)
  from splitMarker_Cons_None [OF Cons.prems(1)]
  have ns: "\<not> startsWith (c # a) ''```''" and n: "splitMarker a = None" by simp_all
  from ns have "\<not> startsWith (c # a @ CHR 0x0A # b) ''```''"
    by (cases a; cases "tl a") (auto simp: startsWith_def)
  with Cons.IH [OF n Cons.prems(2)] show ?case by simp
qed

lemma splitMarker_join:
  "(\<forall>x \<in> set xs. splitMarker x = None) \<Longrightarrow> splitMarker (join [CHR 0x0A] xs) = None"
proof (induction xs)
  case Nil
  then show ?case by simp
next
  case (Cons x xs)
  show ?case
  proof (cases xs)
    case Nil
    with Cons.prems show ?thesis by simp
  next
    case (Cons y ys)
    with Cons.prems Cons.IH
    have "splitMarker x = None" "splitMarker (join [CHR 0x0A] (y # ys)) = None" by simp_all
    from splitMarker_line_feed [OF this] Cons show ?thesis by simp
  qed
qed

lemma fenceCode_no_marker:
  assumes "inner \<in> set (fenceInners t)"
  shows "splitMarker (fenceCode inner) = None"
  unfolding fenceCode_def
  by (intro splitMarker_trim splitMarker_dropWhile
      splitMarker_closed_None [OF fenceInners_closed [OF assms]])

lemma fenceContents_no_marker: "splitMarker (trim (fenceContents t)) = None"
  unfolding fenceContents_def
  by (intro splitMarker_trim splitMarker_join) (auto simp: fenceCode_no_marker)

lemma fenceInners_no_marker: "splitMarker s = None \<Longrightarrow> fenceInners s = []"
  by (simp add: fenceInners.simps [of s])

section \<open>White space around a response\<close>

lemma isSpace_not_backtick: "isSpace c \<Longrightarrow> c \<noteq> CHR 0x60"
  by (auto simp: isSpace_def)

lemma splitMarker_dropWhile_isSpace:
  "splitMarker (dropWhile isSpace s)
     = (case splitMarker s of None \<Rightarrow> None | Some (b, x) \<Rightarrow> Some (dropWhile isSpace b, x))"
proof (induction s)
  case Nil
  then show ?case by simp
next
  case (Cons c cs)
  show ?case
  proof (cases "isSpace c")
    case True
    with isSpace_not_backtick have "\<not> startsWith (c # cs) ''```''"
      by (auto simp: startsWith_def)
    with True Cons show ?thesis by (simp split: option.splits)
  next
    case False
    then show ?thesis by (simp split: option.splits)
  qed
qed

lemma splitMarker_spaces: "list_all isSpace ws \<Longrightarrow> splitMarker ws = None"
proof (induction ws)
  case Nil
  then show ?case by simp
next
  case (Cons c ws)
  with isSpace_not_backtick have "\<not> startsWith (c # ws) ''```''"
    by (auto simp: startsWith_def)
  with Cons show ?case by simp
qed

lemma splitMarker_append_spaces:
  assumes "list_all isSpace ws"
  shows "splitMarker (s @ ws)
           = (case splitMarker s of None \<Rightarrow> None | Some (b, x) \<Rightarrow> Some (b, x @ ws))"
proof (induction s)
  case Nil
  from splitMarker_spaces [OF assms] show ?case by simp
next
  case (Cons c cs)
  have "startsWith (c # cs @ ws) ''```'' = startsWith (c # cs) ''```''"
    using assms isSpace_not_backtick
    by (cases cs; cases "tl cs"; cases ws; cases "tl ws") (auto simp: startsWith_def)
  moreover have "startsWith (c # cs) ''```'' \<Longrightarrow> drop 3 (c # cs @ ws) = drop 3 (c # cs) @ ws"
    by (cases cs; cases "tl cs") (auto simp: startsWith_def)
  ultimately show ?case using Cons by (simp split: option.splits)
qed

lemma fenceInners_dropWhile_isSpace: "fenceInners (dropWhile isSpace s) = fenceInners s"
  by (simp add: fenceInners.simps [of "dropWhile isSpace s"] fenceInners.simps [of s]
      splitMarker_dropWhile_isSpace split: option.splits)

lemma fenceInners_append_spaces:
  assumes "list_all isSpace ws"
  shows "fenceInners (s @ ws) = fenceInners s"
proof (induction s rule: fenceInners.induct)
  case (1 t)
  show ?case
  proof (cases "splitMarker t")
    case None
    then show ?thesis
      by (simp add: fenceInners.simps [of "t @ ws"] fenceInners.simps [of t]
          splitMarker_append_spaces [OF assms])
  next
    case (Some p)
    obtain before opened where p: "p = (before, opened)" by (cases p) auto
    show ?thesis
    proof (cases "splitMarker opened")
      case None
      with Some p show ?thesis
        by (simp add: fenceInners.simps [of "t @ ws"] fenceInners.simps [of t]
            splitMarker_append_spaces [OF assms])
    next
      case (Some q)
      obtain i rest where q: "q = (i, rest)" by (cases q) auto
      from "1.IH" [OF \<open>splitMarker t = Some p\<close> p [symmetric] Some q [symmetric]]
        \<open>splitMarker t = Some p\<close> p Some q
      show ?thesis
        by (simp add: fenceInners.simps [of "t @ ws"] fenceInners.simps [of t]
            splitMarker_append_spaces [OF assms])
    qed
  qed
qed

lemma dropWhile_trim:
  "dropWhile isSpace s = trim s @ rev (takeWhile isSpace (rev (dropWhile isSpace s)))"
proof -
  define xs where "xs = rev (dropWhile isSpace s)"
  have "rev (dropWhile isSpace xs) @ rev (takeWhile isSpace xs)
          = rev (takeWhile isSpace xs @ dropWhile isSpace xs)"
    by (simp only: rev_append)
  also have "\<dots> = rev xs" by simp
  finally show ?thesis by (simp add: xs_def trim_def)
qed

lemma fenceInners_trim: "fenceInners (trim s) = fenceInners s"
proof -
  define ws where "ws = rev (takeWhile isSpace (rev (dropWhile isSpace s)))"
  have "list_all isSpace ws"
    unfolding ws_def list_all_iff
    using set_takeWhileD [of _ isSpace "rev (dropWhile isSpace s)"] by auto
  from fenceInners_append_spaces [OF this, of "trim s"]
  have "fenceInners (trim s) = fenceInners (trim s @ ws)" by simp
  also have "trim s @ ws = dropWhile isSpace s"
    unfolding ws_def by (rule dropWhile_trim [symmetric])
  also have "fenceInners (dropWhile isSpace s) = fenceInners s"
    by (rule fenceInners_dropWhile_isSpace)
  finally show ?thesis .
qed

lemma fenceContents_trim: "fenceContents (trim s) = fenceContents s"
  by (simp add: fenceContents_def fenceInners_trim)

section \<open>The claim about fenced responses\<close>

lemma sanitizeLine_empty: "sanitizeLine [] = None"
  by (simp add: sanitizeLine_def trim_def)

lemma map_filter_all_kept:
  "list_all (\<lambda>x. f x = Some x) xs \<Longrightarrow> List.map_filter f xs = xs"
  by (induction xs) (auto simp: List.map_filter_simps)

text \<open>Without a fenced block the lines of the whole text are filtered.\<close>

lemma sanitize_unfenced:
  assumes "fenceInners (trim s) = []"
  shows "sanitizeFixSuggestion s
           = trim (join [CHR 0x0A] (List.map_filter sanitizeLine (split_nl (trim s))))"
proof (cases "s = []")
  case True
  then show ?thesis
    by (simp add: sanitizeFixSuggestion_def trim_def List.map_filter_simps sanitizeLine_empty)
next
  case False
  from rx_match_all_fences [of "trim s"] assms
  have "rx_match_all fenceRegex (trim s) = []" by simp
  with False show ?thesis by (simp add: sanitizeFixSuggestion_def Let_def)
qed

text \<open>With one, the lines of the fence contents are.\<close>

lemma sanitize_fenced:
  assumes "fenceInners (trim raw) \<noteq> []"
  shows "sanitizeFixSuggestion raw
           = trim (join [CHR 0x0A]
               (List.map_filter sanitizeLine (split_nl (trim (fenceContents (trim raw))))))"
proof -
  have raw: "raw \<noteq> []"
  proof
    assume "raw = []"
    then have "fenceInners (trim raw) = []"
      by (simp add: trim_def fenceInners.simps [of "[]"])
    with assms show False by simp
  qed
  have fences: "map fst (rx_match_all fenceRegex (trim raw))
                  = map (\<lambda>inner. ''```'' @ inner @ ''```'') (fenceInners (trim raw))"
    by (rule rx_match_all_fences)
  with assms have ne: "rx_match_all fenceRegex (trim raw) \<noteq> []" by auto
  have bodies: "map fenceBody (map fst (rx_match_all fenceRegex (trim raw)))
                  = map fenceCode (fenceInners (trim raw))"
    unfolding fences by (rule map_fenceBody_fences)
  show ?thesis
    using raw ne bodies
    by (simp add: sanitizeFixSuggestion_def Let_def fenceContents_def comp_def)
qed


text \<open>
  C4 (amended).  A fenced block is a marker of three backticks, the next such marker
  and the text between the two.  Its language tag is the run of letters, digits and
  underscores right after the opening marker (code that starts on the line of the
  marker loses its first word to it), and its code is the rest of the text between the
  markers, trimmed.  On a response with at least one fenced block
  \<^verbatim>\<open>sanitizeFixSuggestion\<close> gives what it gives on the fence contents alone (the codes
  of the blocks, one per line): the text outside the blocks, single backticks included,
  and the language tags do not count.  The line filters still run over the fence
  contents; when they keep every line as it is, the result is exactly the fence
  contents.  The response of Scenario E, and a fenced block followed by a Note line,
  give \<^verbatim>\<open>int x = 0;\<close>.
\<close>

theorem sanitize_fenced_response:
  "(fenceInners raw \<noteq> [] \<longrightarrow>
      sanitizeFixSuggestion raw = sanitizeFixSuggestion (fenceContents raw)) \<and>
   (fenceInners raw \<noteq> [] \<and> trim (fenceContents raw) = fenceContents raw \<and>
    list_all (\<lambda>l. sanitizeLine l = Some l) (split_nl (fenceContents raw)) \<longrightarrow>
      sanitizeFixSuggestion raw = fenceContents raw) \<and>
   sanitizeFixSuggestion response_scenario_E = ''int x = 0;'' \<and>
   sanitizeFixSuggestion response_with_note = ''int x = 0;''"
proof -
  have fenced: "sanitizeFixSuggestion raw
           = trim (join [CHR 0x0A]
               (List.map_filter sanitizeLine (split_nl (trim (fenceContents raw)))))"
    if "fenceInners raw \<noteq> []"
    using that sanitize_fenced [of raw] by (simp add: fenceInners_trim fenceContents_trim)
  have "fenceInners (trim (fenceContents raw)) = []"
    by (rule fenceInners_no_marker [OF fenceContents_no_marker])
  from sanitize_unfenced [OF this]
  have 1: "sanitizeFixSuggestion raw = sanitizeFixSuggestion (fenceContents raw)"
    if "fenceInners raw \<noteq> []"
    using fenced [OF that] by simp
  have 2: "sanitizeFixSuggestion raw = fenceContents raw"
    if f: "fenceInners raw \<noteq> []" and tr: "trim (fenceContents raw) = fenceContents raw"
      and kept: "list_all (\<lambda>l. sanitizeLine l = Some l) (split_nl (fenceContents raw))"
    using fenced [OF f] map_filter_all_kept [OF kept]
    by (simp add: tr join_split_nl)
  have 3: "sanitizeFixSuggestion response_scenario_E = ''int x = 0;''"
    by code_simp
  have 4: "sanitizeFixSuggestion response_with_note = ''int x = 0;''"
    by code_simp
  from 1 2 3 4 show ?thesis by blast
qed

text \<open>
  C4 as stated fails when a line of the fenced code starts with a number, or is blank:
  the number is taken for a numeric prefix and stripped, and the blank line is dropped,
  so the result is not the fence contents.  It also fails when the code starts on the
  line of the opening marker: its first word goes with the marker.
\<close>

theorem sanitize_filters_inside_fence:
  "fenceContents response_number_line
     = ''int a[] = {'' @ [CHR 0x0A] @ ''  10, 20'' @ [CHR 0x0A] @ ''};'' \<and>
   sanitizeFixSuggestion response_number_line
     = ''int a[] = {'' @ [CHR 0x0A] @ '', 20'' @ [CHR 0x0A] @ ''};'' \<and>
   fenceContents response_blank_line = ''int a;'' @ [CHR 0x0A, CHR 0x0A] @ ''int b;'' \<and>
   sanitizeFixSuggestion response_blank_line = ''int a;'' @ [CHR 0x0A] @ ''int b;'' \<and>
   fenceInners response_code_on_marker_line = [''int x = 0;''] \<and>
   sanitizeFixSuggestion response_code_on_marker_line = ''x = 0;''"
  by code_simp

theorem sanitize_fenced_response_witness:
  "fenceInners response_scenario_E = [''c'' @ [CHR 0x0A] @ ''int x = 0;'' @ [CHR 0x0A]] \<and>
   fenceContents response_scenario_E = ''int x = 0;'' \<and>
   sanitizeFixSuggestion response_scenario_E = fenceContents response_scenario_E \<and>
   fenceInners response_quoted_word
     = [''c'' @ [CHR 0x0A] @ ''int x = 0;'' @ [CHR 0x0A], [CHR 0x0A] @ ''long y = 1;'' @ [CHR 0x0A]] \<and>
   sanitizeFixSuggestion response_quoted_word = ''int x = 0;'' @ [CHR 0x0A] @ ''long y = 1;'' \<and>
   fenceInners response_blank_line \<noteq> [] \<and>
   sanitizeFixSuggestion response_blank_line
     = sanitizeFixSuggestion (fenceContents response_blank_line)"
proof -
  have i: "fenceInners response_scenario_E = [''c'' @ [CHR 0x0A] @ ''int x = 0;'' @ [CHR 0x0A]]"
    by code_simp
  have c: "fenceContents response_scenario_E = ''int x = 0;''" by code_simp
  have tr: "trim (fenceContents response_scenario_E) = fenceContents response_scenario_E"
    unfolding c by code_simp
  have kept: "list_all (\<lambda>l. sanitizeLine l = Some l) (split_nl (fenceContents response_scenario_E))"
    unfolding c by code_simp
  from i have ne: "fenceInners response_scenario_E \<noteq> []" by simp
  from sanitize_fenced_response [of response_scenario_E, THEN conjunct2, THEN conjunct1, THEN mp,
      OF conjI [OF ne conjI [OF tr kept]]]
  have 1: "sanitizeFixSuggestion response_scenario_E = fenceContents response_scenario_E" .
  have i2: "fenceInners response_quoted_word
     = [''c'' @ [CHR 0x0A] @ ''int x = 0;'' @ [CHR 0x0A], [CHR 0x0A] @ ''long y = 1;'' @ [CHR 0x0A]]"
    by code_simp
  have c2: "fenceContents response_quoted_word = ''int x = 0;'' @ [CHR 0x0A] @ ''long y = 1;''"
    by code_simp
  have tr2: "trim (fenceContents response_quoted_word) = fenceContents response_quoted_word"
    unfolding c2 by code_simp
  have kept2: "list_all (\<lambda>l. sanitizeLine l = Some l) (split_nl (fenceContents response_quoted_word))"
    unfolding c2 by code_simp
  from i2 have ne2: "fenceInners response_quoted_word \<noteq> []" by simp
  from sanitize_fenced_response [of response_quoted_word, THEN conjunct2, THEN conjunct1, THEN mp,
      OF conjI [OF ne2 conjI [OF tr2 kept2]]]
  have "sanitizeFixSuggestion response_quoted_word = fenceContents response_quoted_word" .
  with c2 have 2: "sanitizeFixSuggestion response_quoted_word
                     = ''int x = 0;'' @ [CHR 0x0A] @ ''long y = 1;''" by simp
  have i3: "fenceInners response_blank_line \<noteq> []" by code_simp
  from sanitize_fenced_response [of response_blank_line, THEN conjunct1, THEN mp, OF i3]
  have 3: "sanitizeFixSuggestion response_blank_line
     = sanitizeFixSuggestion (fenceContents response_blank_line)" .
  from i c 1 i2 2 i3 3 show ?thesis by (intro conjI)
qed

section \<open>The claim about numeric prefixes\<close>






section \<open>The claim about the compilation unit\<close>














lemma erase_lit [simp]: "erase (lit w) = lit w"
  by (induction w) auto








lemma quoted_unit:
  "testCode fs_quoted_include [''d/a.c''] = ''#include <a.h>'' @ [CHR 0x0A, CHR 0x0A, CHR 0x0A] @ ''int x;''"
  by code_simp


section \<open>The loops over the matches of the tools' output\<close>

text \<open>
  A \<^verbatim>\<open>while ((match = regex.exec(output)) !== null)\<close> loop searches on from the end of
  the last match, and would not end on a match of the empty text.  The patterns of the
  three parsers match no empty text, so their loops end and see the matches of the scan.
\<close>

lemma consumingD:
  "consuming r \<Longrightarrow> st' \<in> set (ms r st) \<Longrightarrow> length (fst (snd st')) < length (fst (snd st))"
  unfolding consuming_def by blast

lemma consuming_Cls: "consuming (Cls P)"
  by (auto simp: consuming_def split: list.splits if_splits)

lemma consuming_Seq:
  assumes "consuming r1"
  shows "consuming (Seq r1 r2)"
  unfolding consuming_def
proof (intro allI impI)
  fix st st'
  assume "st' \<in> set (ms (Seq r1 r2) st)"
  then obtain s1 where a: "s1 \<in> set (ms r1 st)" and b: "st' \<in> set (ms r2 s1)" by auto
  from assms a have "length (fst (snd s1)) < length (fst (snd st))"
    unfolding consuming_def by blast
  moreover from ms_shape_aux [OF b] have "length (fst (snd st')) \<le> length (fst (snd s1))"
    by auto
  ultimately show "length (fst (snd st')) < length (fst (snd st))" by simp
qed

lemma consuming_Grp:
  assumes "consuming r"
  shows "consuming (Grp i r)"
  unfolding consuming_def
proof (intro allI impI)
  fix st st'
  assume a: "st' \<in> set (ms (Grp i r) st)"
  obtain pre rest caps where st: "st = (pre, rest, caps)" by (cases st) auto
  from a st obtain s1 where s: "s1 \<in> set (ms r st)" and e: "fst (snd st') = fst (snd s1)"
    by (auto split: prod.splits)
  from consumingD [OF assms s] e show "length (fst (snd st')) < length (fst (snd st))"
    by simp
qed

lemma consuming_Plus: "consuming r \<Longrightarrow> consuming (Plus r)"
  unfolding Plus_def by (rule consuming_Seq)

lemma consuming_lit: "w \<noteq> [] \<Longrightarrow> consuming (lit w)"
  by (cases w) (simp_all add: consuming_Seq consuming_Cls)

lemma consuming_parsers:
  "consuming compilerErrorRegex" "consuming cppcheckRegex" "consuming clangTidyRegex"
  unfolding compilerErrorRegex_def cppcheckRegex_def clangTidyRegex_def
  by (intro consuming_Seq consuming_Grp consuming_Plus consuming_Cls consuming_lit; simp)+

lemma rx_search_at:
  "rx_search r pre rest = Some (gap, st') \<Longrightarrow>
   st' \<in> set (ms r (rev gap @ pre, drop (length gap) rest, []))"
proof (induction r pre rest arbitrary: gap rule: rx_search.induct)
  case (1 r pre)
  then show ?case by (auto split: list.splits)
next
  case (2 r pre c cs)
  show ?case
  proof (cases "ms r (pre, c # cs, [])")
    case Nil
    with "2.prems" obtain gap' where g: "rx_search r (c # pre) cs = Some (gap', st')"
      and gap: "gap = c # gap'"
      by (auto split: option.splits)
    from "2.IH" [OF Nil g] gap show ?thesis by simp
  next
    case (Cons s ss)
    with "2.prems" show ?thesis by auto
  qed
qed

lemma rx_scan_consuming:
  "consuming r \<Longrightarrow> Matched m caps \<in> set (rx_scan r pre rest) \<Longrightarrow> m \<noteq> []"
proof (induction r pre rest rule: rx_scan.induct)
  case (1 r pre rest)
  note c = "1.prems"(1)
  show ?case
  proof (cases "rx_search r pre rest")
    case None
    with "1.prems"(2) show ?thesis by (simp add: rx_scan.simps [of r pre rest])
  next
    case (Some a)
    obtain gap pre' rest' caps' where a: "a = (gap, (pre', rest', caps'))"
      by (cases a) auto
    define mm where "mm = rev (take (length pre' - (length pre + length gap)) pre')"
    from rx_search_shape [of r pre rest gap pre' rest' caps'] Some a
    obtain m0 where m0: "rest = gap @ m0 @ rest'" "pre' = rev m0 @ rev gap @ pre" by auto
    from rx_search_at [of r pre rest gap "(pre', rest', caps')"] Some a
    have "(pre', rest', caps') \<in> set (ms r (rev gap @ pre, drop (length gap) rest, []))" by simp
    from consumingD [OF c this] have "length rest' < length (drop (length gap) rest)"
      by simp
    with m0 have "m0 \<noteq> []" by auto
    with m0 have mm: "mm = m0" "mm \<noteq> []" by (simp_all add: mm_def)
    from "1.prems"(2) Some a mm consider
      (this_one) "m = mm" |
      (later1) "Matched m caps \<in> set (rx_scan r pre' rest')"
      by (auto simp: rx_scan.simps [of r pre rest] Let_def mm_def split: list.splits if_splits)
    then show ?thesis
    proof cases
      case this_one
      with mm show ?thesis by simp
    next
      case later1
      from "1.IH"(1) [OF Some a [symmetric] refl refl mm_def mm(2) c later1]
      show ?thesis .
    qed
  qed
qed

lemma parser_matches_nonempty:
  assumes "r = compilerErrorRegex \<or> r = cppcheckRegex \<or> r = clangTidyRegex"
    and "(m, caps) \<in> set (rx_match_all r s)"
  shows "m \<noteq> []"
proof -
  from assms(1) have c: "consuming r" using consuming_parsers by auto
  from assms(2) have "Matched m caps \<in> set (rx_scan r [] s)"
    by (auto simp: rx_match_all_def split: tok.splits)
  from rx_scan_consuming [OF c this] show ?thesis .
qed

end
